theory Spec2Isabelle
  imports Main "HOL-Library.Sublist"
begin

section \<open>Node's \<open>path\<close> module, POSIX flavour\<close>

text \<open>
  The server manipulates paths with \<open>path.join\<close>, \<open>path.resolve\<close>, \<open>path.dirname\<close>,
  \<open>path.extname\<close> and \<open>path.basename\<close>. These are library functions; they are modelled
  here on strings (\<open>char list\<close>) the way Node's POSIX implementation computes them:
  a path is cut at every \<open>/\<close>, empty and \<open>.\<close> segments are dropped, and a \<open>..\<close> segment
  removes the segment before it.
\<close>

fun split_slash :: "string \<Rightarrow> string list" where
  "split_slash [] = [[]]"
| "split_slash (c # cs) =
     (if c = CHR ''/'' then [] # split_slash cs
      else (case split_slash cs of [] \<Rightarrow> [[c]] | s # ss \<Rightarrow> (c # s) # ss))"

fun join_slash :: "string list \<Rightarrow> string" where
  "join_slash [] = []"
| "join_slash [s] = s"
| "join_slash (s # t # ss) = s @ CHR ''/'' # join_slash (t # ss)"

text \<open>
  \<open>normalizeString\<close>: the accumulator is the stack of segments kept so far, top first.
  \<open>allowAboveRoot\<close> is set for relative paths, where a leading \<open>..\<close> is kept.
\<close>

fun normalizeSegs :: "bool \<Rightarrow> string list \<Rightarrow> string list \<Rightarrow> string list" where
  "normalizeSegs allowAboveRoot acc [] = rev acc"
| "normalizeSegs allowAboveRoot acc (s # ss) =
     (if s = [] \<or> s = ''.'' then normalizeSegs allowAboveRoot acc ss
      else if s = ''..'' then
        (case acc of
           [] \<Rightarrow> normalizeSegs allowAboveRoot (if allowAboveRoot then [''..''] else []) ss
         | t # ts \<Rightarrow>
             if t = ''..''
             then normalizeSegs allowAboveRoot (if allowAboveRoot then ''..'' # acc else acc) ss
             else normalizeSegs allowAboveRoot ts ss)
      else normalizeSegs allowAboveRoot (s # acc) ss)"

definition isAbsolute :: "string \<Rightarrow> bool" where
  "isAbsolute p = (case p of [] \<Rightarrow> False | c # _ \<Rightarrow> c = CHR ''/'')"

definition path_normalize :: "string \<Rightarrow> string" where
  "path_normalize p =
     (if p = [] then ''.''
      else
        let trailingSeparator = (last p = CHR ''/'');
            r = join_slash (normalizeSegs (\<not> isAbsolute p) [] (split_slash p))
        in if r = [] then (if isAbsolute p then ''/'' else if trailingSeparator then ''./'' else ''.'')
           else (if isAbsolute p then ''/'' else []) @ r @ (if trailingSeparator then ''/'' else []))"

definition path_join :: "string list \<Rightarrow> string" where
  "path_join args =
     (let parts = filter (\<lambda>a. a \<noteq> []) args
      in if parts = [] then ''.'' else path_normalize (join_slash parts))"

text \<open>
  \<open>path.resolve\<close> walks its arguments from the right, prepending each non-empty one,
  until the path built so far is absolute; the working directory is the last resort.
\<close>

fun resolve_prepend :: "string list \<Rightarrow> string \<Rightarrow> string" where
  "resolve_prepend [] resolvedPath = resolvedPath"
| "resolve_prepend (p # ps) resolvedPath =
     (if p = [] then resolve_prepend ps resolvedPath
      else if isAbsolute p then p @ CHR ''/'' # resolvedPath
      else resolve_prepend ps (p @ CHR ''/'' # resolvedPath))"

definition path_resolve :: "string \<Rightarrow> string list \<Rightarrow> string" where
  "path_resolve cwd args =
     (let resolvedPath = resolve_prepend (rev args @ [cwd]) [];
          r = join_slash (normalizeSegs (\<not> isAbsolute resolvedPath) [] (split_slash resolvedPath))
      in if isAbsolute resolvedPath then CHR ''/'' # r
         else if r \<noteq> [] then r else ''.'')"

definition path_dirname :: "string \<Rightarrow> string" where
  "path_dirname p =
     (case p of
        [] \<Rightarrow> ''.''
      | c # cs \<Rightarrow>
          let hasRoot = (c = CHR ''/'');
              r = dropWhile (\<lambda>x. x \<noteq> CHR ''/'') (dropWhile (\<lambda>x. x = CHR ''/'') (rev cs))
          in if r = [] then (if hasRoot then ''/'' else ''.'')
             else if hasRoot \<and> length r = 1 then ''//''
             else take (length r) p)"

text \<open>The last segment of a path, trailing separators ignored.\<close>

definition last_segment :: "string \<Rightarrow> string" where
  "last_segment p =
     rev (takeWhile (\<lambda>x. x \<noteq> CHR ''/'') (dropWhile (\<lambda>x. x = CHR ''/'') (rev p)))"

definition path_extname :: "string \<Rightarrow> string" where
  "path_extname p =
     (let s = last_segment p;
          e = rev (takeWhile (\<lambda>x. x \<noteq> CHR ''.'') (rev s))
      in if CHR ''.'' \<notin> set s then []
         else if length e + 1 = length s then []
         else if s = ''..'' then []
         else CHR ''.'' # e)"

definition path_basename :: "string \<Rightarrow> string \<Rightarrow> string" where
  "path_basename p ext =
     (let s = last_segment p
      in if ext \<noteq> [] \<and> ext = p then []
         else if ext \<noteq> [] \<and> ext \<noteq> s \<and> suffix ext s then take (length s - length ext) s
         else s)"

section \<open>The sandbox check\<close>

text \<open>
  \<open>safeJoin\<close> and \<open>isSafePath\<close> of \<open>server.js\<close>. The working directory of the process is
  a parameter, since \<open>path.resolve\<close> reads it. \<open>startsWith\<close> is a prefix test on the
  characters of the two strings.
\<close>

definition safeJoin :: "string \<Rightarrow> string \<Rightarrow> string \<Rightarrow> string" where
  "safeJoin cwd dir filename = path_resolve cwd [path_join [dir, filename]]"

definition isSafePath :: "string \<Rightarrow> string \<Rightarrow> string \<Rightarrow> bool" where
  "isSafePath cwd filePath baseDir =
     (let resolvedPath = path_resolve cwd [filePath];
          resolvedBase = path_resolve cwd [baseDir]
      in prefix resolvedBase resolvedPath)"

section \<open>The filesystem\<close>

text \<open>
  The filesystem calls of \<open>fs\<close> are modelled on a finite table from paths to nodes.
  A key is the list of the segments of an absolute path, so the entries below a
  directory are those having its key as a prefix. A relative path is resolved against
  the working directory, as the operating system does. The root directory \<open>/\<close> (the
  empty key) always exists. Modification times and permissions are not part of this
  table; the polling sweep has its own view of the tree further down.
\<close>

type_synonym key = "string list"

datatype node = File string | Dir

type_synonym filesystem = "(key \<times> node) list"

definition key_of :: "string \<Rightarrow> string \<Rightarrow> key" where
  "key_of cwd p =
     normalizeSegs False [] (split_slash (if isAbsolute p then p else cwd @ CHR ''/'' # p))"

definition node_at :: "filesystem \<Rightarrow> key \<Rightarrow> node option" where
  "node_at fs k = (if k = [] then Some Dir else map_of fs k)"

definition has_children :: "filesystem \<Rightarrow> key \<Rightarrow> bool" where
  "has_children fs k = list_ex (\<lambda>k'. strict_prefix k k') (map fst fs)"

definition is_file_at :: "filesystem \<Rightarrow> key \<Rightarrow> bool" where
  "is_file_at fs k = (case node_at fs k of Some (File c) \<Rightarrow> True | Some Dir \<Rightarrow> False | None \<Rightarrow> False)"

fun isFile :: "node \<Rightarrow> bool" where
  "isFile (File c) = True"
| "isFile Dir = False"

fun isDirectory :: "node \<Rightarrow> bool" where
  "isDirectory (File c) = False"
| "isDirectory Dir = True"

text \<open>Errors are values carrying Node's error code and the text of \<open>e.message\<close>.\<close>

datatype errcode = ENOENT | ENOTDIR | EISDIR | EEXIST | ENOTEMPTY | EINVAL | EXDEV | EPERM | EACCES

record fserror =
  code :: errcode
  message :: string

fun errno_text :: "errcode \<Rightarrow> string" where
  "errno_text ENOENT = ''ENOENT: no such file or directory''"
| "errno_text ENOTDIR = ''ENOTDIR: not a directory''"
| "errno_text EISDIR = ''EISDIR: illegal operation on a directory''"
| "errno_text EEXIST = ''EEXIST: file already exists''"
| "errno_text ENOTEMPTY = ''ENOTEMPTY: directory not empty''"
| "errno_text EINVAL = ''EINVAL: invalid argument''"
| "errno_text EXDEV = ''EXDEV: cross-device link not permitted''"
| "errno_text EPERM = ''EPERM: operation not permitted''"
| "errno_text EACCES = ''EACCES: permission denied''"

definition quoted :: "string \<Rightarrow> string" where
  "quoted p = CHR 0x27 # p @ [CHR 0x27]"

definition fs_error :: "errcode \<Rightarrow> string \<Rightarrow> string \<Rightarrow> fserror" where
  "fs_error c syscall p =
     \<lparr>code = c, message = errno_text c @ '', '' @ syscall @ '' '' @ quoted p\<rparr>"

definition fs_error2 :: "errcode \<Rightarrow> string \<Rightarrow> string \<Rightarrow> string \<Rightarrow> fserror" where
  "fs_error2 c syscall p q =
     \<lparr>code = c, message = errno_text c @ '', '' @ syscall @ '' '' @ quoted p @ '' -> '' @ quoted q\<rparr>"

text \<open>
  Path resolution as the operating system does it. The directories on the way to the
  last segment are visited from the root down: the first one that is missing gives
  \<open>ENOENT\<close>, the first one that is a regular file gives \<open>ENOTDIR\<close>. A path that ends
  in a separator names a directory, so it does not resolve to a regular file.
\<close>

fun first_blocker :: "filesystem \<Rightarrow> key list \<Rightarrow> errcode option" where
  "first_blocker fs [] = None"
| "first_blocker fs (q # qs) =
     (case node_at fs q of
        None \<Rightarrow> Some ENOENT
      | Some (File c) \<Rightarrow> Some ENOTDIR
      | Some Dir \<Rightarrow> first_blocker fs qs)"

definition ancestors :: "key \<Rightarrow> key list" where
  "ancestors k = butlast (prefixes k)"

definition trailing_sep :: "string \<Rightarrow> bool" where
  "trailing_sep p = (case rev p of [] \<Rightarrow> False | c # cs \<Rightarrow> c = CHR ''/'')"

definition resolve_node :: "string \<Rightarrow> filesystem \<Rightarrow> string \<Rightarrow> errcode + node" where
  "resolve_node cwd fs p =
     (case first_blocker fs (ancestors (key_of cwd p)) of
        Some e \<Rightarrow> Inl e
      | None \<Rightarrow>
         (case node_at fs (key_of cwd p) of
            None \<Rightarrow> Inl ENOENT
          | Some n \<Rightarrow> if trailing_sep p \<and> isFile n then Inl ENOTDIR else Inr n))"

definition existsSync :: "string \<Rightarrow> filesystem \<Rightarrow> string \<Rightarrow> bool" where
  "existsSync cwd fs p = (case resolve_node cwd fs p of Inl e \<Rightarrow> False | Inr n \<Rightarrow> True)"

definition fs_access :: "string \<Rightarrow> filesystem \<Rightarrow> string \<Rightarrow> fserror + unit" where
  "fs_access cwd fs p =
     (case resolve_node cwd fs p of
        Inl e \<Rightarrow> Inl (fs_error e ''access'' p)
      | Inr n \<Rightarrow> Inr ())"

definition fs_stat :: "string \<Rightarrow> filesystem \<Rightarrow> string \<Rightarrow> fserror + node" where
  "fs_stat cwd fs p =
     (case resolve_node cwd fs p of
        Inl e \<Rightarrow> Inl (fs_error e ''stat'' p)
      | Inr n \<Rightarrow> Inr n)"

definition remove_key :: "key \<Rightarrow> filesystem \<Rightarrow> filesystem" where
  "remove_key k fs = filter (\<lambda>(k', n). k' \<noteq> k) fs"

definition remove_tree :: "key \<Rightarrow> filesystem \<Rightarrow> filesystem" where
  "remove_tree k fs = filter (\<lambda>(k', n). \<not> prefix k k') fs"

definition move_tree :: "key \<Rightarrow> key \<Rightarrow> filesystem \<Rightarrow> filesystem" where
  "move_tree ko kn fs =
     map (\<lambda>(k, n). (if prefix ko k then kn @ drop (length ko) k else k, n)) fs"

definition fs_unlink :: "string \<Rightarrow> filesystem \<Rightarrow> string \<Rightarrow> fserror + filesystem" where
  "fs_unlink cwd fs p =
     (case resolve_node cwd fs p of
        Inl e \<Rightarrow> Inl (fs_error e ''unlink'' p)
      | Inr Dir \<Rightarrow> Inl (fs_error EISDIR ''unlink'' p)
      | Inr (File c) \<Rightarrow> Inr (remove_key (key_of cwd p) fs))"

text \<open>
  \<open>fs.rm\<close> with \<open>recursive: true, force: true\<close>: a missing path is no error, any
  other failure to resolve the path is.
\<close>

definition fs_rm :: "string \<Rightarrow> filesystem \<Rightarrow> string \<Rightarrow> fserror + filesystem" where
  "fs_rm cwd fs p =
     (case resolve_node cwd fs p of
        Inl e \<Rightarrow> if e = ENOENT then Inr fs else Inl (fs_error e ''rm'' p)
      | Inr n \<Rightarrow> Inr (remove_tree (key_of cwd p) fs))"

text \<open>\<open>fs.mkdir\<close> with \<open>recursive: true\<close> creates every missing directory on the way.\<close>

fun mkdir_prefixes :: "filesystem \<Rightarrow> key list \<Rightarrow> filesystem" where
  "mkdir_prefixes fs [] = fs"
| "mkdir_prefixes fs (k # ks) =
     mkdir_prefixes (if node_at fs k = None then fs @ [(k, Dir)] else fs) ks"

definition fs_mkdir :: "string \<Rightarrow> filesystem \<Rightarrow> string \<Rightarrow> fserror + filesystem" where
  "fs_mkdir cwd fs p =
     (let k = key_of cwd p
      in if list_ex (is_file_at fs) (prefixes k)
         then Inl (fs_error (if is_file_at fs k then EEXIST else ENOTDIR) ''mkdir'' p)
         else Inr (mkdir_prefixes fs (prefixes k)))"

text \<open>
  \<open>rename\<close> as POSIX defines it: both paths are resolved as far as their parent
  directories, the source must exist, a regular file cannot take a name that ends in
  a separator, a directory cannot move below itself, a file replaces a file and a
  directory replaces an empty directory. \<open>xdev\<close> says that the two paths are on
  different devices.
\<close>

definition fs_rename :: "bool \<Rightarrow> string \<Rightarrow> filesystem \<Rightarrow> string \<Rightarrow> string \<Rightarrow> fserror + filesystem" where
  "fs_rename xdev cwd fs old new =
     (let ko = key_of cwd old; kn = key_of cwd new
      in case resolve_node cwd fs old of
           Inl e \<Rightarrow> Inl (fs_error2 e ''rename'' old new)
         | Inr n \<Rightarrow>
            (case first_blocker fs (ancestors kn) of
               Some e \<Rightarrow> Inl (fs_error2 e ''rename'' old new)
             | None \<Rightarrow>
                 if trailing_sep new \<and> isFile n then Inl (fs_error2 ENOTDIR ''rename'' old new)
                 else if xdev then Inl (fs_error2 EXDEV ''rename'' old new)
                 else if ko = kn then Inr fs
                 else if isDirectory n \<and> prefix ko kn then Inl (fs_error2 EINVAL ''rename'' old new)
                 else (case node_at fs kn of
                         None \<Rightarrow> Inr (move_tree ko kn fs)
                       | Some (File c) \<Rightarrow>
                           if isDirectory n then Inl (fs_error2 ENOTDIR ''rename'' old new)
                           else Inr (move_tree ko kn (remove_key kn fs))
                       | Some Dir \<Rightarrow>
                           if isFile n then Inl (fs_error2 EISDIR ''rename'' old new)
                           else if has_children fs kn then Inl (fs_error2 ENOTEMPTY ''rename'' old new)
                           else Inr (move_tree ko kn (remove_key kn fs)))))"

definition fs_readFile :: "string \<Rightarrow> filesystem \<Rightarrow> string \<Rightarrow> fserror + string" where
  "fs_readFile cwd fs p =
     (case resolve_node cwd fs p of
        Inl e \<Rightarrow> Inl (fs_error e ''open'' p)
      | Inr Dir \<Rightarrow> Inl (fs_error EISDIR ''read'' p)
      | Inr (File c) \<Rightarrow> Inr c)"

definition fs_writeFile :: "string \<Rightarrow> filesystem \<Rightarrow> string \<Rightarrow> string \<Rightarrow> fserror + filesystem" where
  "fs_writeFile cwd fs p content =
     (let k = key_of cwd p
      in case first_blocker fs (ancestors k) of
           Some e \<Rightarrow> Inl (fs_error e ''open'' p)
         | None \<Rightarrow>
            (case node_at fs k of
               Some Dir \<Rightarrow> Inl (fs_error EISDIR ''open'' p)
             | Some (File c) \<Rightarrow>
                 if trailing_sep p then Inl (fs_error ENOTDIR ''open'' p)
                 else Inr (map (\<lambda>(k', n). if k' = k then (k', File content) else (k', n)) fs)
             | None \<Rightarrow>
                 if trailing_sep p then Inl (fs_error EISDIR ''open'' p)
                 else Inr (fs @ [(k, File content)])))"

definition fs_readdir :: "string \<Rightarrow> filesystem \<Rightarrow> string \<Rightarrow> fserror + string list" where
  "fs_readdir cwd fs p =
     (case resolve_node cwd fs p of
        Inl e \<Rightarrow> Inl (fs_error e ''scandir'' p)
      | Inr (File c) \<Rightarrow> Inl (fs_error ENOTDIR ''scandir'' p)
      | Inr Dir \<Rightarrow>
          Inr (map last (filter (\<lambda>k'. k' \<noteq> [] \<and> butlast k' = key_of cwd p) (map fst fs))))"

section \<open>Input validation and error sanitising\<close>

text \<open>
  A string is the list of its UTF-16 code units, and a \<open>char\<close> is one code unit; the
  model covers the strings whose code units are below 256 (Latin-1). On these,
  \<open>length\<close> is the \<open>length\<close> of the code, \<open>take n\<close> is \<open>substring(0, n)\<close>,
  \<open>toLowerCase\<close> lowers \<open>A\<close> to \<open>Z\<close> and the Latin-1 capitals 192 to 222 (215, the
  multiplication sign, excepted), and \<open>trim\<close> strips the white space and line
  terminators of ECMAScript: 9 to 13, the space and the no-break space 160.
\<close>

definition lower_char :: "char \<Rightarrow> char" where
  "lower_char c =
     (let n = (of_char c :: nat)
      in if (65 \<le> n \<and> n \<le> 90) \<or> (192 \<le> n \<and> n \<le> 222 \<and> n \<noteq> 215)
         then char_of (n + 32) else c)"

definition toLowerCase :: "string \<Rightarrow> string" where
  "toLowerCase s = map lower_char s"

definition is_letter :: "char \<Rightarrow> bool" where
  "is_letter c =
     (let n = (of_char c :: nat) in (65 \<le> n \<and> n \<le> 90) \<or> (97 \<le> n \<and> n \<le> 122))"

definition is_space :: "char \<Rightarrow> bool" where
  "is_space c = (let n = (of_char c :: nat) in n = 32 \<or> n = 160 \<or> (9 \<le> n \<and> n \<le> 13))"

definition trim :: "string \<Rightarrow> string" where
  "trim s = rev (dropWhile is_space (rev (dropWhile is_space s)))"

definition includes_str :: "string \<Rightarrow> string \<Rightarrow> bool" where
  "includes_str s w = list_ex (\<lambda>t. prefix w t) (suffixes s)"

text \<open>\<open>isValidFileName\<close>: the character class is \<open>[<>:"|?*\x00-\x1f]\<close>.\<close>

definition invalid_char :: "char \<Rightarrow> bool" where
  "invalid_char c =
     (c \<in> set ''<>:|?*'' \<or> c = CHR 0x22 \<or> (of_char c :: nat) \<le> 31)"

definition reserved_name :: "string \<Rightarrow> bool" where
  "reserved_name s =
     (let l = toLowerCase s
      in l \<in> set [''con'', ''prn'', ''aux'', ''nul'']
         \<or> (length l = 4 \<and> (take 3 l = ''com'' \<or> take 3 l = ''lpt'')
              \<and> last l \<in> set ''123456789''))"

definition isValidFileName :: "string \<Rightarrow> bool" where
  "isValidFileName filename =
     (if filename = [] then False
      else \<not> list_ex invalid_char filename \<and> \<not> reserved_name filename \<and> length filename \<le> 255)"

definition isValidPath :: "string \<Rightarrow> bool" where
  "isValidPath pathStr =
     (if pathStr = [] then True
      else length pathStr \<le> 1000 \<and> CHR 0x00 \<notin> set pathStr)"

text \<open>
  \<open>sanitizeError\<close> applies five regular-expression replacements in a row. The first
  two are global: \<open>[A-Za-z]:[\\/][^:]+\<close> and \<open>/[^:]+\<close>, each match replaced by
  \<open>[file path]\<close>. The last three replace the first match of \<open>ENOENT.*\<close>, \<open>EACCES.*\<close>
  and \<open>EPERM.*\<close>, where \<open>.\<close> stops at a line break. Every caller passes a string.
\<close>

function replace_drive_paths :: "string \<Rightarrow> string" where
  "replace_drive_paths s =
     (case s of
        a # b # c # d # rest \<Rightarrow>
          if is_letter a \<and> b = CHR '':'' \<and> (c = CHR 0x5C \<or> c = CHR ''/'') \<and> d \<noteq> CHR '':''
          then ''[file path]'' @ replace_drive_paths (dropWhile (\<lambda>x. x \<noteq> CHR '':'') rest)
          else a # replace_drive_paths (b # c # d # rest)
      | [a, b, c] \<Rightarrow> s
      | [a, b] \<Rightarrow> s
      | [a] \<Rightarrow> s
      | [] \<Rightarrow> s)"
  by pat_completeness auto
termination
  by (relation "measure length") (auto simp: le_imp_less_Suc length_dropWhile_le less_Suc_eq_le le_SucI)

function replace_slash_paths :: "string \<Rightarrow> string" where
  "replace_slash_paths s =
     (case s of
        a # b # rest \<Rightarrow>
          if a = CHR ''/'' \<and> b \<noteq> CHR '':''
          then ''[file path]'' @ replace_slash_paths (dropWhile (\<lambda>x. x \<noteq> CHR '':'') rest)
          else a # replace_slash_paths (b # rest)
      | [a] \<Rightarrow> s
      | [] \<Rightarrow> s)"
  by pat_completeness auto
termination
  by (relation "measure length") (auto simp: le_imp_less_Suc length_dropWhile_le less_Suc_eq_le le_SucI)

fun replace_to_eol :: "string \<Rightarrow> string \<Rightarrow> string \<Rightarrow> string" where
  "replace_to_eol w r [] = []"
| "replace_to_eol w r (c # cs) =
     (if prefix w (c # cs)
      then r @ dropWhile (\<lambda>x. x \<noteq> CHR 0x0A \<and> x \<noteq> CHR 0x0D) (c # cs)
      else c # replace_to_eol w r cs)"

declare replace_drive_paths.simps [simp del] replace_slash_paths.simps [simp del]

definition sanitizeError :: "string \<Rightarrow> string" where
  "sanitizeError error =
     replace_to_eol ''EPERM'' ''Operation not permitted''
       (replace_to_eol ''EACCES'' ''Permission denied''
         (replace_to_eol ''ENOENT'' ''File or directory not found''
           (replace_slash_paths (replace_drive_paths error))))"

text \<open>\<open>isHidden\<close> on a POSIX host: the Windows attribute test does not apply.\<close>

definition isHidden :: "string \<Rightarrow> bool" where
  "isHidden filename = prefix ''.'' filename"

section \<open>The server state and its request handlers\<close>

text \<open>
  \<open>lastOperation\<close> is the global undo slot of \<open>server.js\<close>; its \<open>type\<close> field is the
  constructor, and every record carries the time it was made. The room
  \<open>file_browser\<close> receives \<open>file_updated\<close> events; \<open>emitted\<close> is the log of their
  \<open>path\<close> payloads, oldest first.
\<close>

datatype operation =
    OpUpload "string list" nat
  | OpCreateFolder string nat
  | OpDelete string nat
  | OpRename string string nat

record config =
  cwd :: string
  BASE_DIR :: string
  cross_device :: bool

record server =
  disk :: filesystem
  lastOperation :: "operation option"
  emitted :: "string list"

datatype response =
    Success
  | Uploaded "string list"
  | Content string
  | Download string
  | Refused nat
  | Failure nat string

definition emit :: "string \<Rightarrow> server \<Rightarrow> server" where
  "emit path_payload s = s\<lparr>emitted := emitted s @ [path_payload]\<rparr>"

subsection \<open>Download and preview\<close>

text \<open>
  \<open>res.download(fullPath)\<close> is called without options. Express passes the path to
  the \<open>send\<close> package, which looks at the path before it opens the file: a NUL
  character is answered 400, a \<open>..\<close> segment, with either separator, is answered 403,
  and with no \<open>dotfiles\<close> option a normalised path whose last segment starts with a dot
  is answered 404.
  No callback is given, so the error goes to Express' error handler and the client gets
  that status; \<open>Refused\<close> is this answer.
\<close>

definition containsDotFile :: "string list \<Rightarrow> bool" where
  "containsDotFile parts =
     list_ex (\<lambda>part. case part of c # d # ds \<Rightarrow> c = CHR ''.'' | [c] \<Rightarrow> False | [] \<Rightarrow> False) parts"

definition res_download :: "string \<Rightarrow> response" where
  "res_download fullPath =
     (let parts = split_slash (path_normalize fullPath)
      in if CHR 0x00 \<in> set fullPath then Refused 400
         else if list_ex (\<lambda>part. part = ''..'')
                   (split_slash (map (\<lambda>c. if c = CHR 0x5C then CHR ''/'' else c) fullPath))
         then Refused 403
         else if containsDotFile parts
                 \<and> (case last parts of [] \<Rightarrow> False | c # cs \<Rightarrow> c = CHR ''.'')
         then Refused 404
         else Download fullPath)"

definition download :: "config \<Rightarrow> string \<Rightarrow> server \<Rightarrow> response" where
  "download cfg filePath s =
     (let fullPath = safeJoin (cwd cfg) (BASE_DIR cfg) filePath
      in if \<not> isSafePath (cwd cfg) fullPath (BASE_DIR cfg) then Failure 400 ''Invalid path''
         else if \<not> existsSync (cwd cfg) (disk s) fullPath then Failure 404 ''File not found''
         else (case fs_stat (cwd cfg) (disk s) fullPath of
                 Inl e \<Rightarrow> Failure 500 (message e)
               | Inr n \<Rightarrow> if isFile n then res_download fullPath
                          else Failure 400 ''Path is not a file''))"

text \<open>
  The MIME table of the \<open>mime-types\<close> package is a parameter of \<open>preview\<close>. A
  file holds its text as \<open>readFileSync(fullPath, 'utf-8')\<close> returns it, and
  \<open>substring(0, 10000)\<close> keeps the first 10000 code units.
\<close>

definition preview :: "(string \<Rightarrow> string option) \<Rightarrow> config \<Rightarrow> string \<Rightarrow> server \<Rightarrow> response" where
  "preview mime_lookup cfg filePath s =
     (let fullPath = safeJoin (cwd cfg) (BASE_DIR cfg) filePath
      in if \<not> isSafePath (cwd cfg) fullPath (BASE_DIR cfg) then Failure 400 ''Invalid path''
         else if \<not> existsSync (cwd cfg) (disk s) fullPath then Failure 404 ''File not found''
         else (case fs_stat (cwd cfg) (disk s) fullPath of
                 Inl e \<Rightarrow> Failure 404 ''File not found''
               | Inr n \<Rightarrow>
                   if \<not> isFile n then Failure 404 ''File not found''
                   else (case mime_lookup fullPath of
                           Some mimeType \<Rightarrow>
                             if \<not> prefix ''text/'' mimeType then Failure 400 ''File is not a text file''
                             else (case fs_readFile (cwd cfg) (disk s) fullPath of
                                     Inl e \<Rightarrow> Failure 500 (''Failed to read file: '' @ message e)
                                   | Inr c \<Rightarrow> Content (take 10000 c))
                         | None \<Rightarrow>
                             (case fs_readFile (cwd cfg) (disk s) fullPath of
                                Inl e \<Rightarrow> Failure 500 (''Failed to read file: '' @ message e)
                              | Inr c \<Rightarrow> Content (take 10000 c)))))"

subsection \<open>Create folder, delete, rename\<close>

definition create_folder :: "config \<Rightarrow> nat \<Rightarrow> string \<Rightarrow> string \<Rightarrow> server \<Rightarrow> response \<times> server" where
  "create_folder cfg now currentPath name_field s =
     (let folderName = trim name_field
      in if folderName = [] then (Failure 400 ''Folder name required'', s)
         else if \<not> isValidFileName folderName \<or> \<not> isValidPath currentPath
         then (Failure 400 ''Invalid folder name or path'', s)
         else
           let parentDir = safeJoin (cwd cfg) (BASE_DIR cfg) currentPath
           in if \<not> isSafePath (cwd cfg) parentDir (BASE_DIR cfg) then (Failure 400 ''Invalid path'', s)
              else
                let newFolderPath = path_join [parentDir, folderName]
                in (case fs_access (cwd cfg) (disk s) newFolderPath of
                      Inr u \<Rightarrow> (Failure 400 ''Folder already exists'', s)
                    | Inl e0 \<Rightarrow>
                       (case fs_mkdir (cwd cfg) (disk s) newFolderPath of
                          Inl e \<Rightarrow>
                            (Failure 500 (sanitizeError (''Failed to create folder: '' @ message e)), s)
                        | Inr d \<Rightarrow>
                            (Success,
                             emit currentPath
                               (s\<lparr>disk := d,
                                  lastOperation := Some (OpCreateFolder newFolderPath now)\<rparr>)))))"

text \<open>
  \<open>/delete\<close> stores its record in \<open>lastOperation\<close> as soon as \<open>stat\<close> has succeeded,
  before the entry is removed.
\<close>

definition delete_failure :: "fserror \<Rightarrow> response" where
  "delete_failure e =
     (if code e = ENOENT then Failure 404 ''Item not found''
      else Failure 500 (sanitizeError (''Failed to delete: '' @ message e)))"

definition delete :: "config \<Rightarrow> nat \<Rightarrow> string \<Rightarrow> server \<Rightarrow> response \<times> server" where
  "delete cfg now itemPath s =
     (if \<not> isValidPath itemPath then (Failure 400 ''Invalid path'', s)
      else
        let fullPath = safeJoin (cwd cfg) (BASE_DIR cfg) itemPath
        in if \<not> isSafePath (cwd cfg) fullPath (BASE_DIR cfg) then (Failure 400 ''Invalid path'', s)
           else (case fs_stat (cwd cfg) (disk s) fullPath of
                   Inl e \<Rightarrow> (delete_failure e, s)
                 | Inr stats \<Rightarrow>
                     let s1 = s\<lparr>lastOperation := Some (OpDelete fullPath now)\<rparr>
                     in (case (if isFile stats then fs_unlink (cwd cfg) (disk s1) fullPath
                               else fs_rm (cwd cfg) (disk s1) fullPath) of
                           Inl e \<Rightarrow> (delete_failure e, s1)
                         | Inr d \<Rightarrow> (Success, emit (path_dirname itemPath) (s1\<lparr>disk := d\<rparr>)))))"

definition rename :: "config \<Rightarrow> nat \<Rightarrow> string \<Rightarrow> string \<Rightarrow> server \<Rightarrow> response \<times> server" where
  "rename cfg now oldPath name_field s =
     (let newName = trim name_field
      in if newName = [] then (Failure 400 ''New name required'', s)
         else if \<not> isValidFileName newName \<or> \<not> isValidPath oldPath
         then (Failure 400 ''Invalid file name or path'', s)
         else
           let fullOldPath = safeJoin (cwd cfg) (BASE_DIR cfg) oldPath
           in if \<not> isSafePath (cwd cfg) fullOldPath (BASE_DIR cfg) then (Failure 400 ''Invalid path'', s)
              else (case fs_access (cwd cfg) (disk s) fullOldPath of
                      Inl e0 \<Rightarrow> (Failure 404 ''Item not found'', s)
                    | Inr u0 \<Rightarrow>
                        let parentDir = path_dirname fullOldPath;
                            newFullPath = path_join [parentDir, newName]
                        in (case fs_access (cwd cfg) (disk s) newFullPath of
                              Inr u1 \<Rightarrow> (Failure 400 ''Name already exists'', s)
                            | Inl e1 \<Rightarrow>
                               (case fs_rename False (cwd cfg) (disk s) fullOldPath newFullPath of
                                  Inl e \<Rightarrow>
                                    (Failure 500 (sanitizeError (''Failed to rename: '' @ message e)), s)
                                | Inr d \<Rightarrow>
                                    (Success,
                                     emit (path_dirname oldPath)
                                       (s\<lparr>disk := d,
                                          lastOperation :=
                                            Some (OpRename fullOldPath newFullPath now)\<rparr>))))))"

subsection \<open>Undo\<close>

text \<open>
  The reversal runs inside \<open>try\<close>; \<open>lastOperation = null\<close> is the statement after it
  in the same block, so an exception thrown by a filesystem call skips it. Files
  already removed when the exception is thrown stay removed.
\<close>

fun undo_upload :: "string \<Rightarrow> filesystem \<Rightarrow> string list \<Rightarrow> fserror \<times> filesystem + filesystem" where
  "undo_upload wd fs [] = Inr fs"
| "undo_upload wd fs (filePath # rest) =
     (if existsSync wd fs filePath
      then (case fs_unlink wd fs filePath of
              Inl e \<Rightarrow> Inl (e, fs)
            | Inr fs' \<Rightarrow> undo_upload wd fs' rest)
      else undo_upload wd fs rest)"

fun reverse_operation :: "string \<Rightarrow> filesystem \<Rightarrow> operation \<Rightarrow> fserror \<times> filesystem + filesystem" where
  "reverse_operation wd fs (OpUpload paths t) = undo_upload wd fs paths"
| "reverse_operation wd fs (OpCreateFolder p t) =
     (if existsSync wd fs p
      then (case fs_rm wd fs p of Inl e \<Rightarrow> Inl (e, fs) | Inr fs' \<Rightarrow> Inr fs')
      else Inr fs)"
| "reverse_operation wd fs (OpRename old_path new_path t) =
     (if existsSync wd fs new_path
      then (case fs_rename False wd fs new_path old_path of Inl e \<Rightarrow> Inl (e, fs) | Inr fs' \<Rightarrow> Inr fs')
      else Inr fs)"
| "reverse_operation wd fs (OpDelete p t) = Inr fs"

definition undo :: "config \<Rightarrow> server \<Rightarrow> response \<times> server" where
  "undo cfg s =
     (case lastOperation s of
        None \<Rightarrow> (Failure 400 ''No operation to undo'', s)
      | Some op \<Rightarrow>
         (case reverse_operation (cwd cfg) (disk s) op of
            Inl (e, d) \<Rightarrow> (Failure 500 (''Failed to undo: '' @ message e), s\<lparr>disk := d\<rparr>)
          | Inr d \<Rightarrow> (Success, emit [] (s\<lparr>disk := d, lastOperation := None\<rparr>))))"

subsection \<open>Directory listings\<close>

text \<open>
  The loop that builds \<open>items\<close> in \<open>GET /\<close> and in \<open>GET /api/files\<close>. An item keeps
  the name, the directory flag and the relative path; its size, date and icon are
  computed from the same \<open>stat\<close> result and decide nothing about which entries are
  listed. A \<open>stat\<close> that throws ends the whole loop. The handlers then sort the list
  and \<open>/api/files\<close> may cut it to a limit, which adds no item.
\<close>

record item =
  item_name :: string
  item_is_dir :: bool
  item_path :: string

definition slashes :: "string \<Rightarrow> string" where
  "slashes p = map (\<lambda>c. if c = CHR 0x5C then CHR ''/'' else c) p"

fun list_items :: "string \<Rightarrow> filesystem \<Rightarrow> string \<Rightarrow> string \<Rightarrow> string \<Rightarrow> string list \<Rightarrow> fserror + item list" where
  "list_items wd fs fullPath currentPath searchQuery [] = Inr []"
| "list_items wd fs fullPath currentPath searchQuery (entry # rest) =
     (if searchQuery \<noteq> [] \<and> \<not> includes_str (toLowerCase entry) (toLowerCase searchQuery)
      then list_items wd fs fullPath currentPath searchQuery rest
      else (case fs_stat wd fs (path_join [fullPath, entry]) of
              Inl e \<Rightarrow> Inl e
            | Inr stats \<Rightarrow>
                if isHidden entry then list_items wd fs fullPath currentPath searchQuery rest
                else (case list_items wd fs fullPath currentPath searchQuery rest of
                        Inl e \<Rightarrow> Inl e
                      | Inr items \<Rightarrow>
                          Inr (\<lparr>item_name = entry, item_is_dir = isDirectory stats,
                                item_path = slashes (path_join [currentPath, entry])\<rparr> # items))))"

datatype page =
    Redirect string
  | Render "item list"
  | JsonFiles "item list"
  | JsonError nat string
  | Unhandled string

definition index_items :: "config \<Rightarrow> string \<Rightarrow> string \<Rightarrow> server \<Rightarrow> page" where
  "index_items cfg currentPath searchQuery s =
     (if \<not> isValidPath currentPath \<or> \<not> isValidPath searchQuery then Redirect ''/''
      else
        let fullPath = safeJoin (cwd cfg) (BASE_DIR cfg) currentPath
        in if \<not> isSafePath (cwd cfg) fullPath (BASE_DIR cfg) then Redirect ''/''
           else (case fs_access (cwd cfg) (disk s) fullPath of
                   Inl e \<Rightarrow> Redirect ''/''
                 | Inr u \<Rightarrow>
                    (case fs_stat (cwd cfg) (disk s) fullPath of
                       Inl e \<Rightarrow> Unhandled (message e)
                     | Inr stats \<Rightarrow>
                         if isDirectory stats
                         then (case fs_readdir (cwd cfg) (disk s) fullPath of
                                 Inl e \<Rightarrow> Redirect ''/''
                               | Inr files \<Rightarrow>
                                  (case list_items (cwd cfg) (disk s) fullPath currentPath searchQuery files of
                                     Inl e \<Rightarrow> Redirect ''/''
                                   | Inr items \<Rightarrow> Render items))
                         else Render [])))"

definition api_files_items :: "config \<Rightarrow> string \<Rightarrow> server \<Rightarrow> page" where
  "api_files_items cfg currentPath s =
     (if \<not> isValidPath currentPath then JsonError 400 ''Invalid path''
      else
        let fullPath = safeJoin (cwd cfg) (BASE_DIR cfg) currentPath
        in if \<not> isSafePath (cwd cfg) fullPath (BASE_DIR cfg) then JsonError 400 ''Invalid path''
           else (case fs_access (cwd cfg) (disk s) fullPath of
                   Inl e \<Rightarrow> JsonError 404 ''Path not found''
                 | Inr u \<Rightarrow>
                    (case fs_stat (cwd cfg) (disk s) fullPath of
                       Inl e \<Rightarrow> Unhandled (message e)
                     | Inr stats \<Rightarrow>
                         if isDirectory stats
                         then (case fs_readdir (cwd cfg) (disk s) fullPath of
                                 Inl e \<Rightarrow> JsonError 403 ''Permission denied''
                               | Inr files \<Rightarrow>
                                  (case list_items (cwd cfg) (disk s) fullPath currentPath [] files of
                                     Inl e \<Rightarrow> JsonError 403 ''Permission denied''
                                   | Inr items \<Rightarrow> JsonFiles items))
                         else JsonFiles [])))"

section \<open>A running example\<close>

text \<open>
  A server rooted at \<open>/srv/uploads\<close>, started from \<open>/home\<close>. Beside the root lies
  a directory \<open>/srv/uploads_evil\<close> that is not part of the shared tree.
\<close>

definition example_disk :: filesystem where
  "example_disk =
     [([''srv''], Dir),
      ([''srv'', ''uploads''], Dir),
      ([''srv'', ''uploads'', ''a.txt''], File ''hello''),
      ([''srv'', ''uploads'', ''d''], Dir),
      ([''srv'', ''uploads'', ''d'', ''.h''], File ''x''),
      ([''srv'', ''uploads_evil''], Dir),
      ([''srv'', ''uploads_evil'', ''x''], File ''secret'')]"

definition example_cfg :: config where
  "example_cfg = \<lparr>cwd = ''/home'', BASE_DIR = ''/srv/uploads'', cross_device = False\<rparr>"

definition example_server :: server where
  "example_server = \<lparr>disk = example_disk, lastOperation = None, emitted = []\<rparr>"

section \<open>The sandbox check on a sibling of the root\<close>

text \<open>
  Claim C1 says that a path whose \<open>..\<close> segments take it out of the root is always
  refused. \<open>isSafePath\<close> compares characters, not segments: the client path
  \<open>../uploads_evil/x\<close> resolves to \<open>/srv/uploads_evil/x\<close>, whose text starts with
  \<open>/srv/uploads\<close>, so the check passes although the segments of the root are not a
  prefix of the segments of the result, and \<open>/download\<close> serves the file.
\<close>

theorem sandbox_accepts_sibling_sharing_root_text:
  "safeJoin ''/home'' ''/srv/uploads'' ''../uploads_evil/x'' = ''/srv/uploads_evil/x''
   \<and> isSafePath ''/home'' ''/srv/uploads_evil/x'' ''/srv/uploads''
   \<and> \<not> prefix (key_of ''/home'' ''/srv/uploads'') (key_of ''/home'' ''/srv/uploads_evil/x'')
   \<and> download example_cfg ''../uploads_evil/x'' example_server = Download ''/srv/uploads_evil/x''"
  by code_simp

section \<open>Delete and the undo slot\<close>

text \<open>
  Counterexample to claim C4 as stated: with an empty slot, a successful delete leaves
  a delete record in the slot, and the undo that follows answers with success instead of
  reporting that nothing is pending.
\<close>

theorem delete_then_undo_counterexample:
  "lastOperation example_server = None
   \<and> fst (delete example_cfg 7 ''a.txt'' example_server) = Success
   \<and> lastOperation (snd (delete example_cfg 7 ''a.txt'' example_server))
       = Some (OpDelete ''/srv/uploads/a.txt'' 7)
   \<and> fst (undo example_cfg (snd (delete example_cfg 7 ''a.txt'' example_server))) = Success"
  by code_simp

text \<open>
  Claim C4, amended: a successful delete always overwrites the slot with a delete
  record for the resolved path; the undo that follows reverses nothing, leaves the
  filesystem as the delete left it, empties the slot and answers with success.
\<close>

theorem delete_then_undo:
  assumes "delete cfg now itemPath s = (Success, s')"
  shows "lastOperation s' = Some (OpDelete (safeJoin (cwd cfg) (BASE_DIR cfg) itemPath) now)
         \<and> fst (undo cfg s') = Success
         \<and> disk (snd (undo cfg s')) = disk s'
         \<and> lastOperation (snd (undo cfg s')) = None"
  using assms
  by (auto simp: delete_def Let_def delete_failure_def undo_def emit_def
           split: if_splits sum.splits)

theorem delete_then_undo_witness:
  "delete example_cfg 7 ''a.txt'' example_server
     = (Success, snd (delete example_cfg 7 ''a.txt'' example_server))
   \<and> lastOperation (snd (delete example_cfg 7 ''a.txt'' example_server))
       = Some (OpDelete ''/srv/uploads/a.txt'' 7)
   \<and> fst (undo example_cfg (snd (delete example_cfg 7 ''a.txt'' example_server))) = Success
   \<and> lastOperation (snd (undo example_cfg (snd (delete example_cfg 7 ''a.txt'' example_server))))
       = None"
proof -
  have h: "delete example_cfg 7 ''a.txt'' example_server
             = (Success, snd (delete example_cfg 7 ''a.txt'' example_server))"
    by code_simp
  have j: "safeJoin (cwd example_cfg) (BASE_DIR example_cfg) ''a.txt'' = ''/srv/uploads/a.txt''"
    by code_simp
  from delete_then_undo [OF h] h j show ?thesis by simp
qed

section \<open>Undo is not single-shot when the reversal fails\<close>

text \<open>
  Counterexample to claim C5 as stated: the slot holds an upload record whose path is
  now a directory. \<open>unlinkSync\<close> throws, the handler answers 500 and the slot still
  holds the record; a second undo fails the same way, not with the empty-slot error.
\<close>

theorem undo_failure_keeps_slot_counterexample:
  "fst (undo example_cfg (example_server\<lparr>lastOperation := Some (OpUpload [''/srv/uploads/d''] 3)\<rparr>))
     = Failure 500 (''Failed to undo: EISDIR: illegal operation on a directory, unlink ''
                       @ quoted ''/srv/uploads/d'')
   \<and> lastOperation (snd (undo example_cfg
         (example_server\<lparr>lastOperation := Some (OpUpload [''/srv/uploads/d''] 3)\<rparr>)))
       = Some (OpUpload [''/srv/uploads/d''] 3)
   \<and> fst (undo example_cfg (snd (undo example_cfg
         (example_server\<lparr>lastOperation := Some (OpUpload [''/srv/uploads/d''] 3)\<rparr>))))
       \<noteq> Failure 400 ''No operation to undo''"
  by code_simp

text \<open>
  Claim C5, amended: with a record in the slot, one undo either succeeds, and then the
  slot is empty and an immediate second undo fails with the empty-slot error; or it
  answers 500, and then the slot still holds the same record.
\<close>

theorem undo_clears_slot_on_success_only:
  assumes "lastOperation s = Some op"
  shows "(fst (undo cfg s) = Success
            \<and> lastOperation (snd (undo cfg s)) = None
            \<and> fst (undo cfg (snd (undo cfg s))) = Failure 400 ''No operation to undo'')
         \<or> ((\<exists>msg. fst (undo cfg s) = Failure 500 msg)
            \<and> lastOperation (snd (undo cfg s)) = Some op)"
  using assms
  by (auto simp: undo_def emit_def split: sum.splits prod.splits)

theorem undo_clears_slot_on_success_only_witness:
  "fst (undo example_cfg (example_server\<lparr>lastOperation := Some (OpUpload [''/srv/uploads/a.txt''] 3)\<rparr>))
     = Success
   \<and> lastOperation (snd (undo example_cfg
         (example_server\<lparr>lastOperation := Some (OpUpload [''/srv/uploads/a.txt''] 3)\<rparr>))) = None"
proof -
  have h: "lastOperation (example_server\<lparr>lastOperation := Some (OpUpload [''/srv/uploads/a.txt''] 3)\<rparr>)
             = Some (OpUpload [''/srv/uploads/a.txt''] 3)"
    by simp
  have ok: "fst (undo example_cfg
               (example_server\<lparr>lastOperation := Some (OpUpload [''/srv/uploads/a.txt''] 3)\<rparr>)) = Success"
    by code_simp
  from undo_clears_slot_on_success_only [OF h, of example_cfg] ok show ?thesis by auto
qed

section \<open>Paths that end in a file name\<close>

text \<open>
  A plain segment is a file name as it stands in a directory: not empty, not \<open>.\<close> or
  \<open>..\<close>, and without a separator. Joining one to a directory adds it as the last
  segment of the key.
\<close>

definition plain_segment :: "string \<Rightarrow> bool" where
  "plain_segment s = (s \<noteq> [] \<and> s \<noteq> ''.'' \<and> s \<noteq> ''..'' \<and> CHR ''/'' \<notin> set s)"

lemma split_slash_nonempty: "split_slash p \<noteq> []"
  by (induction p) (auto split: list.splits)

lemma split_slash_no_slash: "CHR ''/'' \<notin> set s \<Longrightarrow> split_slash s = [s]"
  by (induction s) auto

lemma split_slash_append:
  "split_slash (a @ CHR ''/'' # b) = split_slash a @ split_slash b"
  by (induction a) (auto split: list.splits simp: split_slash_nonempty)

lemma split_slash_segments: "x \<in> set (split_slash p) \<Longrightarrow> CHR ''/'' \<notin> set x"
  by (induction p arbitrary: x) (auto split: if_splits list.splits)

lemma split_join_slash:
  "zs \<noteq> [] \<Longrightarrow> \<forall>x \<in> set zs. CHR ''/'' \<notin> set x \<Longrightarrow> split_slash (join_slash zs) = zs"
proof (induction zs rule: join_slash.induct)
  case 1
  then show ?case by simp
next
  case (2 s)
  then show ?case by (simp add: split_slash_no_slash)
next
  case (3 s t ss)
  then show ?case by (simp add: split_slash_append split_slash_no_slash)
qed

lemma normalizeSegs_snoc:
  "plain_segment s \<Longrightarrow> normalizeSegs a acc (xs @ [s]) = normalizeSegs a acc xs @ [s]"
  by (induction a acc xs rule: normalizeSegs.induct) (auto simp: plain_segment_def split: list.splits)

lemma normalizeSegs_segments:
  "x \<in> set (normalizeSegs a acc xs) \<Longrightarrow> x \<in> set acc \<or> x \<in> set xs \<or> x = ''..''"
  by (induction a acc xs rule: normalizeSegs.induct) (auto split: if_splits list.splits)

lemma join_slash_empty: "join_slash zs = [] \<longleftrightarrow> zs = [] \<or> zs = [[]]"
  by (induction zs rule: join_slash.induct) auto

lemma join_slash_snoc_nonempty: "s \<noteq> [] \<Longrightarrow> join_slash (ys @ [s]) \<noteq> []"
  by (simp add: join_slash_empty append_eq_Cons_conv)

lemma last_split_slash_append:
  "last (split_slash (a @ CHR ''/'' # b)) = last (split_slash b)"
  by (simp add: split_slash_append split_slash_nonempty)

lemma join_slash_snoc:
  "join_slash (ys @ [s]) = (if ys = [] then s else join_slash ys @ CHR ''/'' # s)"
  by (induction ys rule: join_slash.induct) auto

lemma last_split_join_slash:
  "CHR ''/'' \<notin> set s \<Longrightarrow> last (split_slash (join_slash (ys @ [s]))) = s"
  by (simp add: join_slash_snoc last_split_slash_append split_slash_no_slash)

lemma ends_in_name_nonempty:
  assumes "last (split_slash p) = s" and "s \<noteq> []"
  shows "p \<noteq> []" and "last p \<noteq> CHR ''/''"
proof -
  from assms show ne: "p \<noteq> []" by auto
  show "last p \<noteq> CHR ''/''"
  proof
    assume "last p = CHR ''/''"
    with ne have "p = butlast p @ CHR ''/'' # []" by (metis append_butlast_last_id)
    then have "split_slash p = split_slash (butlast p) @ [[]]"
      by (metis split_slash_append split_slash.simps(1))
    with assms show False by simp
  qed
qed

lemma normalizeSegs_empty_last:
  "normalizeSegs a acc (xs @ [[]]) = normalizeSegs a acc xs"
  by (induction a acc xs rule: normalizeSegs.induct) (auto split: list.splits)

lemma split_slash_ends:
  "last (split_slash p) = s \<Longrightarrow> \<exists>xs. split_slash p = xs @ [s]"
  by (metis append_butlast_last_id split_slash_nonempty)

lemma path_normalize_ends:
  assumes s: "plain_segment s" and e: "last (split_slash p) = s"
  shows "last (split_slash (path_normalize p)) = s"
proof -
  from s have s_ne: "s \<noteq> []" and s_ns: "CHR ''/'' \<notin> set s" by (auto simp: plain_segment_def)
  note p = ends_in_name_nonempty [OF e s_ne]
  from split_slash_ends [OF e] obtain xs where xs: "split_slash p = xs @ [s]" ..
  define ys where "ys = normalizeSegs (\<not> isAbsolute p) [] xs"
  have ns: "normalizeSegs (\<not> isAbsolute p) [] (split_slash p) = ys @ [s]"
    by (simp add: xs ys_def normalizeSegs_snoc [OF s])
  have q: "path_normalize p = (if isAbsolute p then ''/'' else []) @ join_slash (ys @ [s])"
    using p ns join_slash_snoc_nonempty [OF s_ne, of ys]
    by (simp add: path_normalize_def Let_def)
  show ?thesis
  proof (cases "isAbsolute p")
    case True
    then have "path_normalize p = [] @ CHR ''/'' # join_slash (ys @ [s])" by (simp add: q)
    then show ?thesis
      by (simp only: last_split_slash_append last_split_join_slash [OF s_ns])
  next
    case False
    then show ?thesis by (simp add: q last_split_join_slash [OF s_ns])
  qed
qed

lemma path_join_ends:
  assumes s: "plain_segment s" and e: "last (split_slash q) = s"
  shows "last (split_slash (path_join [b, q])) = s"
proof -
  from s have s_ne: "s \<noteq> []" by (auto simp: plain_segment_def)
  note q = ends_in_name_nonempty [OF e s_ne]
  define p where "p = (if b = [] then q else b @ CHR ''/'' # q)"
  have pj: "path_join [b, q] = path_normalize p"
    using q by (auto simp: path_join_def p_def)
  have "last (split_slash p) = s"
    using e by (simp add: p_def last_split_slash_append)
  from path_normalize_ends [OF s this] show ?thesis by (simp add: pj)
qed

lemma path_join_name_ends:
  "plain_segment s \<Longrightarrow> last (split_slash (path_join [d, s])) = s"
  by (rule path_join_ends) (simp_all add: plain_segment_def split_slash_no_slash)

lemma path_resolve_ends:
  assumes s: "plain_segment s" and e: "last (split_slash q) = s"
  shows "last (split_slash (path_resolve wd [q])) = s"
proof -
  from s have s_ne: "s \<noteq> []" and s_ns: "CHR ''/'' \<notin> set s" by (auto simp: plain_segment_def)
  note q = ends_in_name_nonempty [OF e s_ne]
  define rp where "rp = resolve_prepend (rev [q] @ [wd]) []"
  have "rp = q @ CHR ''/'' # [] \<or> rp = wd @ CHR ''/'' # q @ CHR ''/'' # []"
    using q by (auto simp: rp_def)
  then have "\<exists>ws. split_slash rp = ws @ [s] @ [[]]"
  proof
    assume "rp = q @ CHR ''/'' # []"
    then have "split_slash rp = split_slash q @ [[]]" by (simp add: split_slash_append)
    with split_slash_ends [OF e] show ?thesis by auto
  next
    assume "rp = wd @ CHR ''/'' # q @ CHR ''/'' # []"
    then have "split_slash rp = split_slash wd @ split_slash q @ [[]]"
      by (simp add: split_slash_append)
    with split_slash_ends [OF e] show ?thesis by auto
  qed
  then obtain ws where ws: "split_slash rp = (ws @ [s]) @ [[]]" by auto
  define ys where "ys = normalizeSegs (\<not> isAbsolute rp) [] ws"
  have ns: "normalizeSegs (\<not> isAbsolute rp) [] (split_slash rp) = ys @ [s]"
    unfolding ws normalizeSegs_empty_last by (simp add: ys_def normalizeSegs_snoc [OF s])
  have pr: "path_resolve wd [q]
          = (if isAbsolute rp
             then CHR ''/'' # join_slash (normalizeSegs (\<not> isAbsolute rp) [] (split_slash rp))
             else if join_slash (normalizeSegs (\<not> isAbsolute rp) [] (split_slash rp)) \<noteq> []
             then join_slash (normalizeSegs (\<not> isAbsolute rp) [] (split_slash rp)) else ''.'')"
    unfolding path_resolve_def rp_def Let_def ..
  have "path_resolve wd [q]
          = (if isAbsolute rp then [] @ CHR ''/'' # join_slash (ys @ [s]) else join_slash (ys @ [s]))"
    unfolding pr ns using join_slash_snoc_nonempty [OF s_ne, of ys] by simp
  then have "last (split_slash (path_resolve wd [q]))
               = (if isAbsolute rp then last (split_slash ([] @ CHR ''/'' # join_slash (ys @ [s])))
                  else last (split_slash (join_slash (ys @ [s]))))"
    by simp
  then show ?thesis
    by (simp only: last_split_slash_append last_split_join_slash [OF s_ns] if_cancel)
qed

lemma safeJoin_ends:
  "plain_segment s \<Longrightarrow> last (split_slash p) = s \<Longrightarrow> last (split_slash (safeJoin wd b p)) = s"
  unfolding safeJoin_def by (intro path_resolve_ends path_join_ends)

lemma key_of_ends:
  assumes s: "plain_segment s" and e: "last (split_slash p) = s"
  shows "\<exists>ks. key_of wd p = ks @ [s]"
proof -
  have "last (split_slash (if isAbsolute p then p else wd @ CHR ''/'' # p)) = s"
    using e by (simp add: last_split_slash_append)
  from split_slash_ends [OF this] obtain ws
    where "split_slash (if isAbsolute p then p else wd @ CHR ''/'' # p) = ws @ [s]" ..
  then have "key_of wd p = normalizeSegs False [] ws @ [s]"
    by (simp add: key_of_def normalizeSegs_snoc [OF s])
  then show ?thesis by blast
qed

lemma key_of_join_plain:
  "plain_segment s \<Longrightarrow> \<exists>ks. key_of wd (path_join [d, s]) = ks @ [s]"
  by (intro key_of_ends path_join_name_ends)

section \<open>Rename and undo\<close>

text \<open>
  A table is well formed when every entry has a parent directory in it, as on any real
  filesystem: nothing lies below a missing path or below a file.
\<close>

definition well_formed :: "filesystem \<Rightarrow> bool" where
  "well_formed fs = list_all (\<lambda>(k, n). k \<noteq> [] \<and> node_at fs (butlast k) = Some Dir) fs"

lemma well_formed_parent:
  assumes "well_formed fs" "map_of fs k = Some n"
  shows "k \<noteq> [] \<and> node_at fs (butlast k) = Some Dir"
proof -
  from assms(2) have "(k, n) \<in> set fs" by (rule map_of_SomeD)
  with assms(1) show ?thesis by (auto simp: well_formed_def list_all_iff)
qed

lemma well_formed_ancestors:
  assumes wf: "well_formed fs"
  shows "node_at fs (q @ r) \<noteq> None \<Longrightarrow> node_at fs q \<noteq> None"
proof (induction r rule: rev_induct)
  case Nil
  then show ?case by simp
next
  case (snoc x r)
  from snoc.prems obtain n where "map_of fs (q @ r @ [x]) = Some n"
    by (auto simp: node_at_def)
  from well_formed_parent [OF wf this] have "node_at fs (butlast (q @ r @ [x])) = Some Dir" by simp
  then have "node_at fs (q @ r) = Some Dir" by (simp add: butlast_append)
  with snoc.IH show ?case by simp
qed

lemma no_key_below_missing:
  assumes wf: "well_formed fs" and miss: "node_at fs kn = None" and k: "k \<in> fst ` set fs"
  shows "\<not> prefix kn k"
proof
  assume "prefix kn k"
  then obtain r where r: "k = kn @ r" by (auto simp: prefix_def)
  from k have "map_of fs k \<noteq> None" by (simp add: map_of_eq_None_iff)
  moreover from wf k have "k \<noteq> []" by (auto simp: well_formed_def list_all_iff)
  ultimately have "node_at fs (kn @ r) \<noteq> None" using r by (simp add: node_at_def)
  from well_formed_ancestors [OF wf this] miss show False by simp
qed

lemma well_formed_strict_ancestor_dir:
  assumes wf: "well_formed fs"
  shows "node_at fs (q @ x # r) \<noteq> None \<Longrightarrow> node_at fs q = Some Dir"
proof (induction r rule: rev_induct)
  case Nil
  then obtain n where "map_of fs (q @ [x]) = Some n" by (auto simp: node_at_def)
  from well_formed_parent [OF wf this] show ?case by simp
next
  case (snoc y r)
  then obtain n where "map_of fs (q @ x # r @ [y]) = Some n" by (auto simp: node_at_def)
  from well_formed_parent [OF wf this] have "node_at fs (butlast (q @ x # r @ [y])) = Some Dir" by simp
  then have "node_at fs (q @ x # r) = Some Dir" by (simp add: butlast_append)
  with snoc.IH show ?case by simp
qed

text \<open>Path resolution on a well-formed table.\<close>

lemma first_blocker_None_iff:
  "first_blocker fs qs = None \<longleftrightarrow> (\<forall>q \<in> set qs. node_at fs q = Some Dir)"
  by (induction qs) (auto split: option.splits node.splits)

lemma ancestors_Nil: "ancestors [] = []"
  by (simp add: ancestors_def)

lemma ancestors_snoc: "ancestors (xs @ [x]) = prefixes xs"
  by (simp add: ancestors_def)

lemma in_ancestors: "q \<in> set (ancestors k) \<longleftrightarrow> strict_prefix q k"
proof (cases k rule: rev_cases)
  case Nil
  then show ?thesis by (simp add: ancestors_Nil)
next
  case (snoc xs x)
  show ?thesis unfolding snoc ancestors_snoc by (auto simp: strict_prefix_def prefix_snoc)
qed

lemma parent_in_ancestors: "k \<noteq> [] \<Longrightarrow> butlast k \<in> set (ancestors k)"
  by (cases k rule: rev_cases) (auto simp: ancestors_snoc)

lemma resolve_node_Inr:
  "resolve_node wd fs p = Inr n \<Longrightarrow>
     node_at fs (key_of wd p) = Some n \<and> first_blocker fs (ancestors (key_of wd p)) = None
     \<and> \<not> (trailing_sep p \<and> isFile n)"
  by (auto simp: resolve_node_def split: option.splits if_splits)

lemma existsSync_iff: "existsSync wd fs p \<longleftrightarrow> (\<exists>n. resolve_node wd fs p = Inr n)"
  by (auto simp: existsSync_def split: sum.splits)

lemma existsSync_node: "existsSync wd fs p \<Longrightarrow> node_at fs (key_of wd p) \<noteq> None"
  by (auto simp: existsSync_iff dest: resolve_node_Inr)

lemma wf_no_blocker:
  assumes wf: "well_formed fs" and k: "node_at fs k \<noteq> None"
  shows "first_blocker fs (ancestors k) = None"
  unfolding first_blocker_None_iff
proof
  fix q assume "q \<in> set (ancestors k)"
  then have "strict_prefix q k" by (simp add: in_ancestors)
  then obtain x r where "k = q @ x # r"
    by (auto simp: strict_prefix_def prefix_def) (metis list.exhaust)
  with k well_formed_strict_ancestor_dir [OF wf, of q x r] show "node_at fs q = Some Dir" by simp
qed

lemma wf_no_blocker_parent:
  assumes wf: "well_formed fs" and ne: "k \<noteq> []" and par: "node_at fs (butlast k) = Some Dir"
  shows "first_blocker fs (ancestors k) = None"
  unfolding first_blocker_None_iff
proof
  fix q assume "q \<in> set (ancestors k)"
  with ne have "prefix q (butlast k)"
    by (cases k rule: rev_cases) (auto simp: ancestors_snoc)
  then consider "q = butlast k" | "strict_prefix q (butlast k)" by (auto simp: strict_prefix_def)
  then show "node_at fs q = Some Dir"
  proof cases
    case 1
    with par show ?thesis by simp
  next
    case 2
    then have "q \<in> set (ancestors (butlast k))" by (simp add: in_ancestors)
    moreover from par have "first_blocker fs (ancestors (butlast k)) = None"
      by (intro wf_no_blocker [OF wf]) simp
    ultimately show ?thesis by (simp add: first_blocker_None_iff)
  qed
qed

lemma resolve_node_wf:
  assumes "well_formed fs" "node_at fs (key_of wd p) = Some n"
  shows "resolve_node wd fs p = (if trailing_sep p \<and> isFile n then Inl ENOTDIR else Inr n)"
  using assms wf_no_blocker [of fs "key_of wd p"] by (simp add: resolve_node_def)

text \<open>How \<open>move_tree\<close> renames one key.\<close>

definition rekey :: "key \<Rightarrow> key \<Rightarrow> key \<Rightarrow> key" where
  "rekey ko kn k = (if prefix ko k then kn @ drop (length ko) k else k)"

lemma move_tree_rekey: "move_tree ko kn fs = map (\<lambda>(k, n). (rekey ko kn k, n)) fs"
  by (simp add: move_tree_def rekey_def)

lemma rekey_back:
  assumes "\<not> prefix kn k \<or> prefix ko k"
  shows "rekey kn ko (rekey ko kn k) = k"
  using assms by (auto simp: rekey_def prefix_def)

lemma move_tree_back:
  assumes "\<forall>k \<in> fst ` set fs. \<not> prefix kn k"
  shows "move_tree kn ko (move_tree ko kn fs) = fs"
proof -
  have "map (\<lambda>(k, n). (rekey kn ko k, n)) (map (\<lambda>(k, n). (rekey ko kn k, n)) fs) = fs"
    using assms by (induction fs) (auto simp: rekey_back)
  then show ?thesis by (simp add: move_tree_rekey)
qed

lemma rekey_inj:
  assumes "\<not> prefix kn a \<or> prefix ko a" "\<not> prefix kn b \<or> prefix ko b" "rekey ko kn a = rekey ko kn b"
  shows "a = b"
  using assms rekey_back by metis

lemma map_of_move_tree:
  assumes "\<forall>k \<in> fst ` set fs. \<not> prefix kn k" "\<not> prefix kn q \<or> prefix ko q"
  shows "map_of (move_tree ko kn fs) (rekey ko kn q) = map_of fs q"
  using assms(1)
proof (induction fs)
  case Nil
  then show ?case by (simp add: move_tree_def)
next
  case (Cons a fs)
  obtain k n where a: "a = (k, n)" by (cases a)
  from Cons.prems a have nk: "\<not> prefix kn k" by simp
  from Cons.prems have rest: "\<forall>k \<in> fst ` set fs. \<not> prefix kn k" by simp
  have "rekey ko kn q = rekey ko kn k \<longleftrightarrow> q = k"
    using rekey_inj [of kn k ko q] nk assms(2) by auto
  with Cons.IH [OF rest] a show ?case by (auto simp: move_tree_rekey)
qed

lemma map_of_move_tree_old:
  assumes "\<forall>k \<in> fst ` set fs. \<not> prefix kn k" "\<not> prefix kn ko" "ko \<noteq> kn"
  shows "map_of (move_tree ko kn fs) ko = None"
proof -
  have "ko \<notin> fst ` set (move_tree ko kn fs)"
  proof
    assume "ko \<in> fst ` set (move_tree ko kn fs)"
    then obtain k where k: "k \<in> fst ` set fs" "rekey ko kn k = ko"
      by (force simp: move_tree_rekey)
    show False
    proof (cases "prefix ko k")
      case True
      with k(2) have "ko = kn @ drop (length ko) k" by (simp add: rekey_def)
      then have "prefix kn ko" by (metis prefixI)
      with assms(2) show False by simp
    next
      case False
      with k(2) have "k = ko" by (simp add: rekey_def)
      with False show False by simp
    qed
  qed
  then show ?thesis by (simp add: map_of_eq_None_iff)
qed

lemma move_tree_well_formed:
  assumes wf: "well_formed fs"
    and ko: "map_of fs ko = Some n"
    and new: "node_at fs kn = None"
    and parent_new: "node_at fs (butlast kn) = Some Dir"
    and nd: "\<not> (isDirectory n \<and> prefix ko kn)"
  shows "well_formed (move_tree ko kn fs)"
proof -
  from new have kn_ne: "kn \<noteq> []" by (auto simp: node_at_def split: if_splits)
  from new have below: "\<forall>k \<in> fst ` set fs. \<not> prefix kn k"
    using no_key_below_missing [OF wf] by auto
  from well_formed_parent [OF wf ko] have ko_ne: "ko \<noteq> []" by simp
  have not_below_old: "\<not> prefix ko kn"
  proof
    assume p: "prefix ko kn"
    with nd obtain c where c: "n = File c" by (cases n) auto
    from ko new ko_ne have "ko \<noteq> kn" by (auto simp: node_at_def)
    with p obtain x r where kn: "kn = ko @ x # r"
      by (metis append_Nil2 neq_Nil_conv prefix_def)
    show False
    proof (cases r rule: rev_cases)
      case Nil
      with kn parent_new ko ko_ne c show False by (simp add: node_at_def)
    next
      case (snoc r' y)
      with kn parent_new have "node_at fs (ko @ x # r') \<noteq> None" by (simp add: butlast_append)
      from well_formed_strict_ancestor_dir [OF wf this] ko ko_ne c show False
        by (simp add: node_at_def)
    qed
  qed
  have same: "node_at (move_tree ko kn fs) (rekey ko kn q) = node_at fs q"
    if "\<not> prefix kn q \<or> prefix ko q" "q \<noteq> []" for q
  proof -
    have "rekey ko kn q \<noteq> []" using that(2) kn_ne by (auto simp: rekey_def)
    with map_of_move_tree [OF below that(1)] that(2) show ?thesis by (simp add: node_at_def)
  qed
  have entry: "rekey ko kn k \<noteq> [] \<and> node_at (move_tree ko kn fs) (butlast (rekey ko kn k)) = Some Dir"
    if k: "(k, m) \<in> set fs" for k m
  proof -
    from wf k have k_ne: "k \<noteq> []" and pk: "node_at fs (butlast k) = Some Dir"
      by (auto simp: well_formed_def list_all_iff)
    from k have kk: "k \<in> fst ` set fs" by force
    with below have nk: "\<not> prefix kn k" by blast
    then have nbk: "\<not> prefix kn (butlast k)"
      by (metis k_ne append_butlast_last_id prefix_prefix)
    show ?thesis
    proof (cases "prefix ko k")
      case True
      then obtain r where r: "k = ko @ r" by (auto simp: prefix_def)
      show ?thesis
      proof (cases r rule: rev_cases)
        case Nil
        with r have rk: "rekey ko kn k = kn" by (simp add: rekey_def)
        have nb: "\<not> prefix ko (butlast kn)"
          using not_below_old by (metis kn_ne append_butlast_last_id prefix_prefix)
        have nn: "\<not> prefix kn (butlast kn)"
          using kn_ne by (metis append_butlast_last_id append_self_conv list.discI prefix_order.antisym prefix_prefix prefix_order.order_refl)
        show ?thesis
        proof (cases "butlast kn = []")
          case True
          with rk kn_ne show ?thesis by (simp add: node_at_def)
        next
          case False
          from same [of "butlast kn"] nn False nb parent_new rk kn_ne show ?thesis
            by (simp add: rekey_def)
        qed
      next
        case (snoc r' y)
        with r have rk: "rekey ko kn k = kn @ r' @ [y]" by (simp add: rekey_def)
        have bk: "butlast k = ko @ r'" using r snoc by (simp add: butlast_append)
        have "node_at (move_tree ko kn fs) (rekey ko kn (ko @ r')) = node_at fs (ko @ r')"
          by (rule same) (use ko_ne in auto)
        with pk bk rk show ?thesis by (simp add: rekey_def butlast_append)
      qed
    next
      case False
      then have nbo: "\<not> prefix ko (butlast k)"
        by (metis k_ne append_butlast_last_id prefix_prefix)
      show ?thesis
      proof (cases "butlast k = []")
        case True
        with False k_ne show ?thesis by (simp add: rekey_def node_at_def)
      next
        case nonempty: False
        from same [of "butlast k"] nbk nonempty nbo pk False k_ne show ?thesis
          by (simp add: rekey_def)
      qed
    qed
  qed
  show ?thesis
    unfolding well_formed_def list_all_iff
  proof (intro ballI)
    fix e assume "e \<in> set (move_tree ko kn fs)"
    then obtain k m where "(k, m) \<in> set fs" "e = (rekey ko kn k, m)"
      by (auto simp: move_tree_rekey)
    with entry [of k m] show "case e of (k, n) \<Rightarrow> k \<noteq> [] \<and> node_at (move_tree ko kn fs) (butlast k) = Some Dir"
      by simp
  qed
qed

lemma map_of_remove_key: "map_of (remove_key k fs) k = None"
  by (induction fs) (auto simp: remove_key_def)

lemma move_tree_fresh_nodes:
  assumes wf: "well_formed fs"
    and old: "map_of fs ko = Some n"
    and new: "node_at fs kn = None"
  shows "node_at (move_tree ko kn fs) kn = Some n"
proof -
  from new have kn_ne: "kn \<noteq> []" by (auto simp: node_at_def split: if_splits)
  from new have below: "\<forall>k \<in> fst ` set fs. \<not> prefix kn k"
    using no_key_below_missing [OF wf] by auto
  have "map_of (move_tree ko kn fs) (rekey ko kn ko) = map_of fs ko"
    by (rule map_of_move_tree [OF below]) simp
  then show ?thesis using old kn_ne by (simp add: rekey_def node_at_def)
qed

text \<open>A rename that succeeds onto a path that did not resolve.\<close>

lemma fs_rename_missing_target:
  assumes wf: "well_formed fs"
    and miss: "\<not> existsSync wd fs new"
    and ok: "fs_rename xdev wd fs old new = Inr fs1"
  shows "node_at fs (key_of wd new) = None"
proof (rule ccontr)
  assume "node_at fs (key_of wd new) \<noteq> None"
  then obtain m where m: "node_at fs (key_of wd new) = Some m" by auto
  from ok obtain n where n: "resolve_node wd fs old = Inr n"
    by (auto simp: fs_rename_def Let_def split: sum.splits)
  from resolve_node_Inr [OF n] have no: "node_at fs (key_of wd old) = Some n" by simp
  from miss resolve_node_wf [OF wf m] have t: "trailing_sep new" and fm: "isFile m"
    by (auto simp: existsSync_def split: if_splits)
  from ok n t have dn: "\<not> isFile n"
    by (auto simp: fs_rename_def Let_def split: option.splits if_splits)
  then have "isDirectory n" by (cases n) auto
  moreover from fm obtain c where "m = File c" by (cases m) auto
  moreover from dn fm no m have "key_of wd old \<noteq> key_of wd new" by auto
  ultimately show False
    using ok n m by (auto simp: fs_rename_def Let_def split: option.splits if_splits)
qed

lemma fs_rename_onto_missing:
  assumes wf: "well_formed fs"
    and new: "node_at fs (key_of wd new) = None"
    and ok: "fs_rename xdev wd fs old new = Inr fs1"
  shows "\<exists>n. resolve_node wd fs old = Inr n
            \<and> map_of fs (key_of wd old) = Some n
            \<and> node_at fs (butlast (key_of wd new)) = Some Dir
            \<and> \<not> (isDirectory n \<and> prefix (key_of wd old) (key_of wd new))
            \<and> \<not> (trailing_sep new \<and> isFile n)
            \<and> fs1 = move_tree (key_of wd old) (key_of wd new) fs
            \<and> well_formed fs1
            \<and> node_at fs1 (key_of wd new) = Some n"
proof -
  define ko where "ko = key_of wd old"
  define kn where "kn = key_of wd new"
  from ok obtain n where n: "resolve_node wd fs old = Inr n"
    by (auto simp: fs_rename_def Let_def split: sum.splits)
  from resolve_node_Inr [OF n] have no: "node_at fs ko = Some n" by (simp add: ko_def)
  from new have kn_ne: "kn \<noteq> []" by (auto simp: node_at_def kn_def split: if_splits)
  from no new have ne: "ko \<noteq> kn" by (auto simp: ko_def kn_def)
  from ok n new ne have nb: "first_blocker fs (ancestors kn) = None"
    and nd: "\<not> (isDirectory n \<and> prefix ko kn)"
    and nt: "\<not> (trailing_sep new \<and> isFile n)"
    and fs1: "fs1 = move_tree ko kn fs"
    by (auto simp: fs_rename_def Let_def ko_def kn_def split: option.splits if_splits)
  from nb parent_in_ancestors [OF kn_ne] have parent_new: "node_at fs (butlast kn) = Some Dir"
    by (simp add: first_blocker_None_iff)
  have "ko \<noteq> []"
  proof
    assume "ko = []"
    with no have "n = Dir" by (simp add: node_at_def)
    with nd \<open>ko = []\<close> show False by simp
  qed
  with no have mk: "map_of fs ko = Some n" by (simp add: node_at_def)
  have w: "well_formed fs1"
    unfolding fs1 by (rule move_tree_well_formed [OF wf mk _ parent_new nd]) (use new in \<open>simp add: kn_def\<close>)
  have "node_at fs1 kn = Some n"
    unfolding fs1 by (rule move_tree_fresh_nodes [OF wf mk]) (use new in \<open>simp add: kn_def\<close>)
  with n mk parent_new nd nt fs1 w show ?thesis
    unfolding ko_def kn_def by blast
qed

lemma fs_rename_fresh_then_back:
  assumes wf: "well_formed fs"
    and miss: "\<not> existsSync wd fs new"
    and ok: "fs_rename False wd fs old new = Inr fs1"
  shows "existsSync wd fs1 new \<and> fs_rename False wd fs1 new old = Inr fs"
proof -
  define ko where "ko = key_of wd old"
  define kn where "kn = key_of wd new"
  have new: "node_at fs kn = None"
    unfolding kn_def by (rule fs_rename_missing_target [OF wf miss ok])
  from fs_rename_onto_missing [OF wf new [unfolded kn_def] ok]
  obtain n where n: "resolve_node wd fs old = Inr n"
    and ko_key: "map_of fs ko = Some n"
    and not_into_itself: "\<not> (isDirectory n \<and> prefix ko kn)"
    and nt: "\<not> (trailing_sep new \<and> isFile n)"
    and fs1: "fs1 = move_tree ko kn fs"
    and wf1: "well_formed fs1"
    and at_new: "node_at fs1 kn = Some n"
    unfolding ko_def kn_def by blast
  from well_formed_parent [OF wf ko_key] have ko_ne: "ko \<noteq> []"
    and pk: "node_at fs (butlast ko) = Some Dir" by simp_all
  from new ko_key ko_ne have ne: "ko \<noteq> kn" by (auto simp: node_at_def)
  from new have below: "\<forall>k \<in> fst ` set fs. \<not> prefix kn k"
    using no_key_below_missing [OF wf] by auto
  from ko_key have "ko \<in> fst ` set fs" by (metis map_of_eq_None_iff option.distinct(1))
  with below have nko: "\<not> prefix kn ko" by blast
  have at_old: "node_at fs1 ko = None"
    using map_of_move_tree_old [OF below nko ne] ko_ne by (simp add: fs1 node_at_def)
  have parent_old: "node_at fs1 (butlast ko) = Some Dir"
  proof (cases "butlast ko = []")
    case True
    then show ?thesis by (simp add: node_at_def)
  next
    case False
    have np: "\<not> prefix ko (butlast ko)"
    proof
      assume "prefix ko (butlast ko)"
      then have "length ko \<le> length (butlast ko)" by (rule prefix_length_le)
      with ko_ne show False by (cases ko rule: rev_cases) auto
    qed
    have "\<not> prefix kn (butlast ko)"
    proof
      assume "prefix kn (butlast ko)"
      moreover have "prefix (butlast ko) ko" by (rule prefixeq_butlast)
      ultimately have "prefix kn ko" by (rule prefix_order.trans)
      with nko show False by simp
    qed
    then have "map_of (move_tree ko kn fs) (rekey ko kn (butlast ko)) = map_of fs (butlast ko)"
      by (intro map_of_move_tree [OF below]) simp
    with pk show ?thesis using False np by (simp add: fs1 rekey_def node_at_def)
  qed
  have back_node: "resolve_node wd fs1 new = Inr n"
    using resolve_node_wf [OF wf1 at_new [unfolded kn_def]] nt by simp
  have no_block: "first_blocker fs1 (ancestors ko) = None"
    by (rule wf_no_blocker_parent [OF wf1 ko_ne parent_old])
  from resolve_node_Inr [OF n] have nt_old: "\<not> (trailing_sep old \<and> isFile n)" by simp
  have "fs_rename False wd fs1 new old = Inr (move_tree kn ko fs1)"
    using back_node no_block nt_old at_old ne nko
    by (auto simp: fs_rename_def Let_def ko_def [symmetric] kn_def [symmetric])
  moreover have "move_tree kn ko fs1 = fs"
    unfolding fs1 by (rule move_tree_back [OF below])
  ultimately show ?thesis using back_node by (simp add: existsSync_iff)
qed

text \<open>The two absolute paths the \<open>/rename\<close> handler computes from its inputs.\<close>

definition rename_source :: "config \<Rightarrow> string \<Rightarrow> string" where
  "rename_source cfg oldPath = safeJoin (cwd cfg) (BASE_DIR cfg) oldPath"

definition rename_target :: "config \<Rightarrow> string \<Rightarrow> string \<Rightarrow> string" where
  "rename_target cfg oldPath name_field =
     path_join [path_dirname (rename_source cfg oldPath), trim name_field]"

lemma rename_success:
  assumes "rename cfg now oldPath name_field s = (Success, s1)"
  shows "existsSync (cwd cfg) (disk s) (rename_source cfg oldPath)"
    and "\<not> existsSync (cwd cfg) (disk s) (rename_target cfg oldPath name_field)"
    and "fs_rename False (cwd cfg) (disk s) (rename_source cfg oldPath)
           (rename_target cfg oldPath name_field) = Inr (disk s1)"
    and "lastOperation s1
           = Some (OpRename (rename_source cfg oldPath) (rename_target cfg oldPath name_field) now)"
  using assms
  by (auto simp: rename_def Let_def fs_access_def existsSync_def emit_def rename_source_def
                 rename_target_def
           split: if_splits sum.splits)

lemma rename_keeps_well_formed:
  assumes wf: "well_formed (disk s)" and r: "rename cfg now oldPath name_field s = (Success, s1)"
  shows "well_formed (disk s1)"
proof -
  note f = rename_success [OF r]
  from fs_rename_onto_missing [OF wf fs_rename_missing_target [OF wf f(2) f(3)] f(3)]
  show ?thesis by blast
qed

lemma rename_then_undo:
  assumes wf: "well_formed (disk s)" and r: "rename cfg now oldPath name_field s = (Success, s1)"
  shows "fst (undo cfg s1) = Success \<and> disk (snd (undo cfg s1)) = disk s
         \<and> lastOperation (snd (undo cfg s1)) = None"
proof -
  note f = rename_success [OF r]
  from fs_rename_fresh_then_back [OF wf f(2) f(3)] f(4) show ?thesis
    by (simp add: undo_def emit_def)
qed

text \<open>
  Claim C6: after a successful rename, an immediate undo succeeds and gives back the
  filesystem as it was before the rename, so the entry is at the old path again and
  nothing is at the new path. After two successful renames in a row, one undo gives
  back the filesystem as it was after the first rename and empties the slot: only the
  second rename is reversed.
\<close>

theorem rename_undo_round_trip:
  assumes "well_formed (disk s)"
    and "rename cfg t1 path1 name1 s = (Success, s1)"
    and "rename cfg t2 path2 name2 s1 = (Success, s2)"
  shows "fst (undo cfg s1) = Success
         \<and> disk (snd (undo cfg s1)) = disk s
         \<and> existsSync (cwd cfg) (disk (snd (undo cfg s1))) (rename_source cfg path1)
         \<and> \<not> existsSync (cwd cfg) (disk (snd (undo cfg s1))) (rename_target cfg path1 name1)
         \<and> fst (undo cfg s2) = Success
         \<and> disk (snd (undo cfg s2)) = disk s1
         \<and> lastOperation (snd (undo cfg s2)) = None"
proof -
  note a = rename_then_undo [OF assms(1) assms(2)]
  note b = rename_then_undo [OF rename_keeps_well_formed [OF assms(1) assms(2)] assms(3)]
  note f = rename_success [OF assms(2)]
  from a b f(1) f(2) show ?thesis by simp
qed

theorem rename_undo_round_trip_witness:
  "well_formed (disk example_server)
   \<and> fst (rename example_cfg 1 ''d'' ''e'' example_server) = Success
   \<and> fst (rename example_cfg 2 ''a.txt'' ''b.txt'' (snd (rename example_cfg 1 ''d'' ''e'' example_server)))
       = Success
   \<and> disk (snd (undo example_cfg (snd (rename example_cfg 1 ''d'' ''e'' example_server))))
       = example_disk
   \<and> disk (snd (undo example_cfg
         (snd (rename example_cfg 2 ''a.txt'' ''b.txt'' (snd (rename example_cfg 1 ''d'' ''e'' example_server))))))
       = disk (snd (rename example_cfg 1 ''d'' ''e'' example_server))"
proof -
  define s1 where "s1 = snd (rename example_cfg 1 ''d'' ''e'' example_server)"
  define s2 where "s2 = snd (rename example_cfg 2 ''a.txt'' ''b.txt'' s1)"
  have wf: "well_formed (disk example_server)" by code_simp
  have f1: "fst (rename example_cfg 1 ''d'' ''e'' example_server) = Success" by code_simp
  have f2: "fst (rename example_cfg 2 ''a.txt'' ''b.txt'' s1) = Success"
    unfolding s1_def by code_simp
  have r1: "rename example_cfg 1 ''d'' ''e'' example_server = (Success, s1)"
    using f1 unfolding s1_def by (metis prod.collapse)
  have r2: "rename example_cfg 2 ''a.txt'' ''b.txt'' s1 = (Success, s2)"
    using f2 unfolding s2_def by (metis prod.collapse)
  have d: "disk example_server = example_disk" by (simp add: example_server_def)
  from rename_undo_round_trip [OF wf r1 r2] have
    "disk (snd (undo example_cfg s1)) = disk example_server"
    "disk (snd (undo example_cfg s2)) = disk s1"
    by simp_all
  with wf f1 f2 d show ?thesis
    unfolding s1_def s2_def by simp
qed

section \<open>Hidden entries\<close>

lemma list_items_not_hidden:
  "list_items wd fs fullPath currentPath searchQuery files = Inr items
   \<Longrightarrow> it \<in> set items \<Longrightarrow> \<not> isHidden (item_name it)"
proof (induction files arbitrary: items)
  case Nil
  then show ?case by simp
next
  case (Cons entry rest)
  then show ?case
    by (auto split: if_splits sum.splits)
qed

lemma index_items_not_hidden:
  "index_items cfg currentPath searchQuery s = Render items
   \<Longrightarrow> it \<in> set items \<Longrightarrow> \<not> isHidden (item_name it)"
  by (auto simp: index_items_def Let_def split: if_splits sum.splits dest: list_items_not_hidden)

lemma api_files_items_not_hidden:
  "api_files_items cfg currentPath s = JsonFiles items
   \<Longrightarrow> it \<in> set items \<Longrightarrow> \<not> isHidden (item_name it)"
  by (auto simp: api_files_items_def Let_def split: if_splits sum.splits dest: list_items_not_hidden)

lemma map_of_remove_tree: "map_of (remove_tree k fs) k = None"
  by (auto simp: remove_tree_def map_of_eq_None_iff)

lemma fs_stat_Inr: "fs_stat wd fs p = Inr n \<longleftrightarrow> resolve_node wd fs p = Inr n"
  by (auto simp: fs_stat_def split: sum.splits)

lemma hidden_name_two_chars:
  "isHidden entry \<Longrightarrow> entry \<noteq> ''.'' \<Longrightarrow> \<exists>d ds. entry = CHR ''.'' # d # ds"
  by (cases entry; cases "tl entry") (auto simp: isHidden_def)

lemma res_download_hidden:
  assumes hidden: "isHidden entry" and name: "plain_segment entry"
    and e: "last (split_slash full) = entry"
  shows "res_download full
           = Refused (if CHR 0x00 \<in> set full then 400
                      else if list_ex (\<lambda>part. part = ''..'') (split_slash (slashes full)) then 403
                      else 404)"
proof -
  define parts where "parts = split_slash (path_normalize full)"
  have l: "last parts = entry"
    unfolding parts_def by (rule path_normalize_ends [OF name e])
  from name have "entry \<noteq> ''.''" by (simp add: plain_segment_def)
  from hidden_name_two_chars [OF hidden this] obtain d ds where d: "entry = CHR ''.'' # d # ds"
    by blast
  have "parts \<noteq> []" by (simp add: parts_def split_slash_nonempty)
  with l have "entry \<in> set parts" by (metis last_in_set)
  then have "containsDotFile parts"
    unfolding containsDotFile_def list_ex_iff by (rule bexI [rotated]) (simp add: d)
  moreover have "(case last parts of [] \<Rightarrow> False | c # cs \<Rightarrow> c = CHR ''.'')"
    by (simp add: l d)
  ultimately show ?thesis
    by (simp add: res_download_def Let_def parts_def [symmetric] slashes_def)
qed

text \<open>
  Claim C10 says that an entry whose name starts with a dot is left out of the listings
  and that download, preview, delete and rename still act on it. The \<open>/download\<close>
  handler finds the hidden file and hands it to \<open>res.download\<close>, which refuses it:
  the client gets 404 for \<open>d/.h\<close>, while \<open>a.txt\<close> beside it is served.
\<close>

theorem hidden_file_download_refused_counterexample:
  "isHidden ''.h''
   \<and> safeJoin (cwd example_cfg) (BASE_DIR example_cfg) ''d/.h'' = ''/srv/uploads/d/.h''
   \<and> fs_stat (cwd example_cfg) (disk example_server) ''/srv/uploads/d/.h'' = Inr (File ''x'')
   \<and> download example_cfg ''d/.h'' example_server = Refused 404
   \<and> download example_cfg ''a.txt'' example_server = Download ''/srv/uploads/a.txt''"
  by code_simp

text \<open>
  Claim C10, amended: an entry whose name starts with a dot appears in no listing of
  its directory, neither in \<open>GET /\<close> nor in \<open>GET /api/files\<close>. Addressed by its
  relative path, a hidden file is refused by \<open>/download\<close> (404; 400 or 403 when the
  absolute path holds a NUL or a \<open>..\<close> segment written with a backslash), while
  \<open>/preview\<close> returns its first 10000 code units, \<open>/delete\<close> removes it and \<open>/rename\<close>
  moves it, as for any other file; a hidden directory is answered by \<open>/download\<close> and
  \<open>/preview\<close> as any directory is, and is deleted and renamed.
\<close>

theorem hidden_entry_unlisted_download_refused:
  assumes hidden: "isHidden entry"
    and name: "plain_segment entry"
    and wf: "well_formed (disk s)"
    and p: "p = path_join [dirPath, entry]"
    and full: "full = safeJoin (cwd cfg) (BASE_DIR cfg) p"
    and valid: "isValidPath p"
    and safe: "isSafePath (cwd cfg) full (BASE_DIR cfg)"
    and found: "fs_stat (cwd cfg) (disk s) full = Inr n"
  shows "(\<forall>items. index_items cfg dirPath searchQuery s = Render items
            \<longrightarrow> entry \<notin> item_name ` set items)
       \<and> (\<forall>items. api_files_items cfg dirPath s = JsonFiles items
            \<longrightarrow> entry \<notin> item_name ` set items)
       \<and> download cfg p s
           = (case n of
                File c \<Rightarrow>
                  Refused (if CHR 0x00 \<in> set full then 400
                           else if list_ex (\<lambda>part. part = ''..'') (split_slash (slashes full))
                           then 403 else 404)
              | Dir \<Rightarrow> Failure 400 ''Path is not a file'')
       \<and> preview mime_lookup cfg p s
           = (case n of
                File c \<Rightarrow>
                  (case mime_lookup full of
                     None \<Rightarrow> Content (take 10000 c)
                   | Some mimeType \<Rightarrow>
                       if prefix ''text/'' mimeType then Content (take 10000 c)
                       else Failure 400 ''File is not a text file'')
              | Dir \<Rightarrow> Failure 404 ''File not found'')
       \<and> fst (delete cfg now p s) = Success
       \<and> node_at (disk (snd (delete cfg now p s))) (key_of (cwd cfg) full) = None
       \<and> (\<forall>name_field.
             trim name_field \<noteq> [] \<and> isValidFileName (trim name_field)
             \<and> node_at (disk s) (key_of (cwd cfg) (rename_target cfg p name_field)) = None
             \<and> node_at (disk s) (butlast (key_of (cwd cfg) (rename_target cfg p name_field))) = Some Dir
             \<and> \<not> (trailing_sep (rename_target cfg p name_field) \<and> isFile n)
             \<and> \<not> (isDirectory n
                    \<and> prefix (key_of (cwd cfg) full) (key_of (cwd cfg) (rename_target cfg p name_field)))
             \<longrightarrow> fst (rename cfg now p name_field s) = Success
                 \<and> node_at (disk (snd (rename cfg now p name_field s)))
                     (key_of (cwd cfg) (rename_target cfg p name_field)) = Some n)"
proof -
  define k where "k = key_of (cwd cfg) full"
  have e: "last (split_slash full) = entry"
    unfolding full p by (intro safeJoin_ends path_join_name_ends name)
  from key_of_ends [OF name e, of "cwd cfg"] have k_ne: "k \<noteq> []" by (auto simp: k_def)
  from found have rn: "resolve_node (cwd cfg) (disk s) full = Inr n" by (simp add: fs_stat_Inr)
  from resolve_node_Inr [OF rn] k_ne have mk: "map_of (disk s) k = Some n"
    by (simp add: k_def node_at_def)
  from rn have ex: "existsSync (cwd cfg) (disk s) full" by (auto simp: existsSync_iff)
  have listing: "\<forall>items. index_items cfg dirPath searchQuery s = Render items
            \<longrightarrow> entry \<notin> item_name ` set items"
    using hidden index_items_not_hidden by blast
  have api: "\<forall>items. api_files_items cfg dirPath s = JsonFiles items
            \<longrightarrow> entry \<notin> item_name ` set items"
    using hidden api_files_items_not_hidden by blast
  have dl: "download cfg p s
           = (case n of
                File c \<Rightarrow>
                  Refused (if CHR 0x00 \<in> set full then 400
                           else if list_ex (\<lambda>part. part = ''..'') (split_slash (slashes full))
                           then 403 else 404)
              | Dir \<Rightarrow> Failure 400 ''Path is not a file'')"
    using safe ex found res_download_hidden [OF hidden name e]
    by (cases n) (simp_all add: download_def Let_def full [symmetric])
  have pv: "preview mime_lookup cfg p s
           = (case n of
                File c \<Rightarrow>
                  (case mime_lookup full of
                     None \<Rightarrow> Content (take 10000 c)
                   | Some mimeType \<Rightarrow>
                       if prefix ''text/'' mimeType then Content (take 10000 c)
                       else Failure 400 ''File is not a text file'')
              | Dir \<Rightarrow> Failure 404 ''File not found'')"
    using safe ex found rn
    by (cases n) (simp_all add: preview_def Let_def full [symmetric] fs_readFile_def
                           split: option.splits)
  have del: "fst (delete cfg now p s) = Success
             \<and> disk (snd (delete cfg now p s))
                 = (if isFile n then remove_key k (disk s) else remove_tree k (disk s))"
    using valid safe found rn
    by (cases n) (simp_all add: delete_def Let_def full [symmetric] fs_unlink_def fs_rm_def
                           k_def emit_def)
  have del2: "node_at (disk (snd (delete cfg now p s))) k = None"
    using k_ne del by (simp add: node_at_def map_of_remove_key map_of_remove_tree)
  have ren: "fst (rename cfg now p name_field s) = Success
           \<and> node_at (disk (snd (rename cfg now p name_field s)))
               (key_of (cwd cfg) (rename_target cfg p name_field)) = Some n"
    if a: "trim name_field \<noteq> []" "isValidFileName (trim name_field)"
      "node_at (disk s) (key_of (cwd cfg) (rename_target cfg p name_field)) = None"
      "node_at (disk s) (butlast (key_of (cwd cfg) (rename_target cfg p name_field))) = Some Dir"
      "\<not> (trailing_sep (rename_target cfg p name_field) \<and> isFile n)"
      "\<not> (isDirectory n
          \<and> prefix (key_of (cwd cfg) full) (key_of (cwd cfg) (rename_target cfg p name_field)))"
    for name_field
  proof -
    define target where "target = rename_target cfg p name_field"
    define kn where "kn = key_of (cwd cfg) target"
    note b = a [folded target_def, folded kn_def k_def]
    have t: "path_join [path_dirname full, trim name_field] = target"
      by (simp add: target_def rename_target_def rename_source_def full)
    from b(3) have kn_ne: "kn \<noteq> []" by (auto simp: node_at_def split: if_splits)
    from b(3) mk k_ne have ne: "k \<noteq> kn" by (auto simp: node_at_def)
    have nb: "first_blocker (disk s) (ancestors kn) = None"
      by (rule wf_no_blocker_parent [OF wf kn_ne b(4)])
    have miss: "fs_access (cwd cfg) (disk s) target = Inl (fs_error ENOENT ''access'' target)"
      using nb b(3) by (simp add: fs_access_def resolve_node_def kn_def)
    have acc: "fs_access (cwd cfg) (disk s) full = Inr ()"
      using rn by (simp add: fs_access_def)
    have mv: "fs_rename False (cwd cfg) (disk s) full target = Inr (move_tree k kn (disk s))"
      using rn nb b(3,5,6) ne
      by (simp add: fs_rename_def Let_def k_def [symmetric] kn_def [symmetric])
    have "rename cfg now p name_field s
            = (Success, emit (path_dirname p)
                 (s\<lparr>disk := move_tree k kn (disk s),
                    lastOperation := Some (OpRename full target now)\<rparr>))"
      using a(1,2) valid safe acc miss mv
      by (simp add: rename_def Let_def full [symmetric] t)
    moreover have "node_at (move_tree k kn (disk s)) kn = Some n"
      by (rule move_tree_fresh_nodes [OF wf mk b(3)])
    ultimately show ?thesis by (simp add: emit_def kn_def target_def)
  qed
  from listing api dl pv del del2 ren show ?thesis
    unfolding k_def by (intro conjI allI impI) auto
qed

theorem hidden_entry_unlisted_download_refused_witness:
  "isHidden ''.h''
   \<and> plain_segment ''.h''
   \<and> index_items example_cfg ''d'' [] example_server = Render []
   \<and> api_files_items example_cfg ''d'' example_server = JsonFiles []
   \<and> download example_cfg ''d/.h'' example_server = Refused 404
   \<and> preview (\<lambda>p. None) example_cfg ''d/.h'' example_server = Content ''x''
   \<and> fst (delete example_cfg 5 ''d/.h'' example_server) = Success
   \<and> fst (rename example_cfg 5 ''d/.h'' ''.k'' example_server) = Success"
proof -
  have h: "isHidden ''.h''" by code_simp
  have n: "plain_segment ''.h''" by code_simp
  have wf: "well_formed (disk example_server)" by code_simp
  have p: "''d/.h'' = path_join [''d'', ''.h'']" by code_simp
  have full: "''/srv/uploads/d/.h'' = safeJoin (cwd example_cfg) (BASE_DIR example_cfg) ''d/.h''"
    by code_simp
  have valid: "isValidPath ''d/.h''" by code_simp
  have safe: "isSafePath (cwd example_cfg) ''/srv/uploads/d/.h'' (BASE_DIR example_cfg)"
    by code_simp
  have found: "fs_stat (cwd example_cfg) (disk example_server) ''/srv/uploads/d/.h''
                 = Inr (File ''x'')"
    by code_simp
  note t = hidden_entry_unlisted_download_refused
             [OF h n wf p full valid safe found, of "[]" "\<lambda>p. None" 5]
  have c: "(if CHR 0x00 \<in> set ''/srv/uploads/d/.h'' then 400
            else if list_ex (\<lambda>part. part = ''..'') (split_slash (slashes ''/srv/uploads/d/.h''))
            then 403 else 404) = (404 :: nat)"
    by code_simp
  have l1: "index_items example_cfg ''d'' [] example_server = Render []" by code_simp
  have l2: "api_files_items example_cfg ''d'' example_server = JsonFiles []" by code_simp
  have r: "fst (rename example_cfg 5 ''d/.h'' ''.k'' example_server) = Success" by code_simp
  from t h n l1 l2 r show ?thesis unfolding c by simp
qed

section \<open>Paths built from a name\<close>

text \<open>
  Claim C2 says that every path handed to the filesystem has passed the sandbox check.
  \<open>/rename\<close> and \<open>/create_folder\<close> check the path they are given, then join the
  name to it and use the result unchecked; \<open>isValidFileName\<close> lets \<open>/\<close> and \<open>..\<close>
  through. A rename of \<open>a.txt\<close> to \<open>../evil.txt\<close> moves the file out of the root, and
  a folder named \<open>../../etc/x\<close> is created outside it.
\<close>

theorem name_joined_after_the_sandbox_check:
  "isValidFileName ''../evil.txt''
   \<and> fst (rename example_cfg 7 ''a.txt'' ''../evil.txt'' example_server) = Success
   \<and> lastOperation (snd (rename example_cfg 7 ''a.txt'' ''../evil.txt'' example_server))
       = Some (OpRename ''/srv/uploads/a.txt'' ''/srv/evil.txt'' 7)
   \<and> node_at (disk (snd (rename example_cfg 7 ''a.txt'' ''../evil.txt'' example_server)))
        [''srv'', ''evil.txt''] = Some (File ''hello'')
   \<and> \<not> isSafePath ''/home'' ''/srv/evil.txt'' ''/srv/uploads''
   \<and> isValidFileName ''../../etc/x''
   \<and> fst (create_folder example_cfg 7 [] ''../../etc/x'' example_server) = Success
   \<and> lastOperation (snd (create_folder example_cfg 7 [] ''../../etc/x'' example_server))
       = Some (OpCreateFolder ''/etc/x'' 7)
   \<and> node_at (disk (snd (create_folder example_cfg 7 [] ''../../etc/x'' example_server)))
        [''etc'', ''x''] = Some Dir
   \<and> \<not> isSafePath ''/home'' ''/etc/x'' ''/srv/uploads''"
  by code_simp

theorem name_joined_after_the_sandbox_check_witness:
  "fst (rename example_cfg 7 ''a.txt'' ''../evil.txt'' example_server) = Success
   \<and> isValidFileName ''../evil.txt''"
proof (rule conjI)
  show "fst (rename example_cfg 7 ''a.txt'' ''../evil.txt'' example_server) = Success"
    by (rule name_joined_after_the_sandbox_check [THEN conjunct2, THEN conjunct1])
  show "isValidFileName ''../evil.txt''"
    by (rule name_joined_after_the_sandbox_check [THEN conjunct1])
qed

section \<open>Error messages that reach the client\<close>

text \<open>
  Claim C9 says that no error message carries an absolute path or an error code.
  \<open>/undo\<close> sends \<open>e.message\<close> as it is. Here the slot holds a rename whose old
  directory is gone, so \<open>renameSync\<close> throws and the answer names both absolute paths
  and the code. \<open>/rename\<close>, a sibling handler, passes its message through
  \<open>sanitizeError\<close>, which strips the paths; it maps three codes only, so the code of
  any other error stays in the text.
\<close>

theorem undo_sends_the_raw_error_message:
  "fst (undo example_cfg
         (example_server\<lparr>lastOperation :=
            Some (OpRename ''/srv/uploads/gone/a.txt'' ''/srv/uploads/a.txt'' 3)\<rparr>))
     = Failure 500 (''Failed to undo: ENOENT: no such file or directory, rename ''
                      @ quoted ''/srv/uploads/a.txt'' @ '' -> '' @ quoted ''/srv/uploads/gone/a.txt'')
   \<and> fst (rename example_cfg 7 ''d'' ''d/e'' example_server)
       = Failure 500 (''Failed to rename: EINVAL: invalid argument, rename '' @ [CHR 0x27]
                        @ ''[file path]'')"
  by code_simp

theorem undo_sends_the_raw_error_message_witness:
  "fst (rename example_cfg 7 ''d'' ''d/e'' example_server)
     = Failure 500 (''Failed to rename: EINVAL: invalid argument, rename '' @ [CHR 0x27]
                      @ ''[file path]'')"
  by (rule undo_sends_the_raw_error_message [THEN conjunct2])

section \<open>Upload\<close>

text \<open>
  The decimal numeral a template literal prints for a counter, and the name
  \<open>${name}_${counter}${ext}\<close> the upload loop tries for it. The counter is a natural
  number: a JavaScript number counts exactly and prints as its decimal numeral up to
  \<open>2^53\<close>, more than a directory holds.
\<close>

function show_nat :: "nat \<Rightarrow> string" where
  "show_nat n = (if n < 10 then [char_of (48 + n)] else show_nat (n div 10) @ [char_of (48 + n mod 10)])"
  by pat_completeness auto
termination
  by (relation "measure id") auto

declare show_nat.simps [simp del]

definition candidate_name :: "string \<Rightarrow> nat \<Rightarrow> string" where
  "candidate_name originalName counter =
     (let ext = path_extname originalName;
          name = path_basename originalName ext
      in name @ ''_'' @ show_nat counter @ ext)"

text \<open>Reading a numeral back, to see that different counters print differently.\<close>

definition digits_value :: "string \<Rightarrow> nat" where
  "digits_value s = foldl (\<lambda>a c. 10 * a + (of_char c - 48)) 0 s"

lemma digits_value_show_nat: "digits_value (show_nat n) = n"
proof (induction n rule: show_nat.induct)
  case (1 n)
  show ?case
  proof (cases "n < 10")
    case True
    then show ?thesis by (subst show_nat.simps) (simp add: digits_value_def)
  next
    case False
    have m: "(48 + n mod 10) mod 256 = 48 + n mod 10"
      by (rule mod_less) (use mod_less_divisor [of 10 n] in linarith)
    from False 1 have "digits_value (show_nat (n div 10)) = n div 10" by simp
    then have "digits_value (show_nat (n div 10) @ [char_of (48 + n mod 10)]) = 10 * (n div 10) + n mod 10"
      by (simp add: digits_value_def m)
    with False show ?thesis by (subst show_nat.simps) simp
  qed
qed

lemma show_nat_inj: "show_nat a = show_nat b \<Longrightarrow> a = b"
  by (metis digits_value_show_nat)

lemma show_nat_no_slash: "CHR ''/'' \<notin> set (show_nat n)"
proof (induction n rule: show_nat.induct)
  case (1 n)
  have d: "char_of (48 + k) \<noteq> CHR ''/''" if "k < 10" for k :: nat
  proof
    assume "char_of (48 + k) = CHR ''/''"
    then have "of_char (char_of (48 + k)) = (of_char CHR ''/'' :: nat)" by simp
    with that show False by simp
  qed
  show ?case
  proof (cases "n < 10")
    case True
    then show ?thesis using d [of n] by (subst show_nat.simps) simp
  next
    case False
    with 1 have "CHR ''/'' \<notin> set (show_nat (n div 10))" by simp
    moreover have "char_of (48 + n mod 10) \<noteq> CHR ''/''" by (rule d) simp
    ultimately show ?thesis using False by (subst show_nat.simps) simp
  qed
qed

lemma last_segment_no_slash: "CHR ''/'' \<notin> set (last_segment p)"
  by (auto simp: last_segment_def dest: set_takeWhileD)

lemma path_extname_no_slash: "CHR ''/'' \<notin> set (path_extname p)"
proof -
  have "set (rev (takeWhile (\<lambda>x. x \<noteq> CHR ''.'') (rev (last_segment p)))) \<subseteq> set (last_segment p)"
    by (auto dest: set_takeWhileD)
  with last_segment_no_slash [of p] show ?thesis
    by (auto simp: path_extname_def Let_def)
qed

lemma path_basename_no_slash: "CHR ''/'' \<notin> set (path_basename p ext)"
  using last_segment_no_slash [of p]
  by (auto simp: path_basename_def Let_def dest: in_set_takeD)

lemma candidate_name_plain: "plain_segment (candidate_name originalName j)"
proof -
  have u: "CHR ''_'' \<in> set (candidate_name originalName j)"
    by (simp add: candidate_name_def Let_def)
  then have "candidate_name originalName j \<noteq> []"
    and "candidate_name originalName j \<noteq> ''.''"
    and "candidate_name originalName j \<noteq> ''..''"
    by auto
  moreover have "CHR ''/'' \<notin> set (candidate_name originalName j)"
    using show_nat_no_slash path_extname_no_slash path_basename_no_slash
    by (simp add: candidate_name_def Let_def)
  ultimately show ?thesis by (simp add: plain_segment_def)
qed

lemma candidate_name_inj:
  assumes "candidate_name originalName a = candidate_name originalName b"
  shows "a = b"
proof -
  from assms have "show_nat a = show_nat b"
    by (simp only: candidate_name_def Let_def same_append_eq append_same_eq)
  then show ?thesis by (rule show_nat_inj)
qed

lemma candidate_key_last:
  "last (key_of wd (path_join [uploadDir, candidate_name originalName j]))
     = candidate_name originalName j"
proof -
  from key_of_join_plain [OF candidate_name_plain]
  obtain ks where "key_of wd (path_join [uploadDir, candidate_name originalName j])
                     = ks @ [candidate_name originalName j]"
    by blast
  then show ?thesis by (simp only: last_snoc)
qed

lemma candidate_key_inj:
  "inj (\<lambda>j. key_of wd (path_join [uploadDir, candidate_name originalName j]))"
proof (rule injI)
  fix a b
  assume "key_of wd (path_join [uploadDir, candidate_name originalName a])
           = key_of wd (path_join [uploadDir, candidate_name originalName b])"
  then have "last (key_of wd (path_join [uploadDir, candidate_name originalName a]))
           = last (key_of wd (path_join [uploadDir, candidate_name originalName b]))"
    by (rule arg_cong)
  then have "candidate_name originalName a = candidate_name originalName b"
    by (simp only: candidate_key_last)
  then show "a = b" by (rule candidate_name_inj)
qed

lemma candidates_taken_finite:
  "finite {j. existsSync wd fs (path_join [uploadDir, candidate_name originalName j])}"
proof -
  have "{j. existsSync wd fs (path_join [uploadDir, candidate_name originalName j])}
          \<subseteq> (\<lambda>j. key_of wd (path_join [uploadDir, candidate_name originalName j]))
               -` (insert [] (fst ` set fs))"
  proof
    fix j assume "j \<in> {j. existsSync wd fs (path_join [uploadDir, candidate_name originalName j])}"
    then have "node_at fs (key_of wd (path_join [uploadDir, candidate_name originalName j])) \<noteq> None"
      by (auto dest: existsSync_node)
    then have "key_of wd (path_join [uploadDir, candidate_name originalName j])
                 \<in> insert [] (fst ` set fs)"
      by (auto simp: node_at_def split: if_splits dest!: map_of_SomeD) (metis fst_conv image_iff)
    then show "j \<in> (\<lambda>j. key_of wd (path_join [uploadDir, candidate_name originalName j]))
               -` (insert [] (fst ` set fs))"
      by simp
  qed
  moreover have "finite ((\<lambda>j. key_of wd (path_join [uploadDir, candidate_name originalName j]))
               -` (insert [] (fst ` set fs)))"
    by (rule finite_vimageI [OF _ candidate_key_inj]) simp
  ultimately show ?thesis by (rule finite_subset)
qed

text \<open>
  The number of counters from \<open>counter\<close> on whose candidate name exists. It is finite
  because the table is, and it bounds the iterations the loop has left.
\<close>

definition taken_from :: "string \<Rightarrow> filesystem \<Rightarrow> string \<Rightarrow> string \<Rightarrow> nat \<Rightarrow> nat" where
  "taken_from wd fs uploadDir originalName counter =
     card {j. counter \<le> j \<and> existsSync wd fs (path_join [uploadDir, candidate_name originalName j])}"

lemma taken_from_step:
  "taken_from wd fs uploadDir originalName (Suc counter)
     + (if existsSync wd fs (path_join [uploadDir, candidate_name originalName counter]) then 1 else 0)
   = taken_from wd fs uploadDir originalName counter"
proof -
  let ?T = "\<lambda>c. {j. c \<le> j \<and> existsSync wd fs (path_join [uploadDir, candidate_name originalName j])}"
  have fin: "finite (?T c)" for c
    by (rule finite_subset [OF _ candidates_taken_finite [of wd fs uploadDir originalName]]) auto
  show ?thesis
  proof (cases "existsSync wd fs (path_join [uploadDir, candidate_name originalName counter])")
    case True
    then have "?T counter = insert counter (?T (Suc counter))" by (auto simp: le_Suc_eq)
    moreover have "counter \<notin> ?T (Suc counter)" by simp
    ultimately show ?thesis using True fin [of "Suc counter"]
      by (simp add: taken_from_def)
  next
    case False
    then have "?T counter = ?T (Suc counter)"
      by (auto simp: Suc_le_eq order_le_less)
    with False show ?thesis by (simp add: taken_from_def)
  qed
qed

text \<open>
  The \<open>while (fs.existsSync(filePath))\<close> loop of \<open>/upload\<close>, on the loop variables
  \<open>filename\<close>, \<open>filePath\<close> and \<open>counter\<close>.
\<close>

function dedupe :: "string \<Rightarrow> filesystem \<Rightarrow> string \<Rightarrow> string \<Rightarrow> string \<Rightarrow> string \<Rightarrow> nat \<Rightarrow> string \<times> string" where
  "dedupe wd fs uploadDir originalName filename filePath counter =
     (if existsSync wd fs filePath
      then dedupe wd fs uploadDir originalName
             (candidate_name originalName counter)
             (path_join [uploadDir, candidate_name originalName counter])
             (counter + 1)
      else (filename, filePath))"
  by pat_completeness auto
termination
proof (relation "measure (\<lambda>(wd, fs, uploadDir, originalName, filename, filePath, counter).
          2 * taken_from wd fs uploadDir originalName counter
            + (if existsSync wd fs filePath then 1 else 0))", goal_cases)
  case 1
  show ?case by simp
next
  case (2 wd fs uploadDir originalName filename filePath counter)
  then show ?case
    using taken_from_step [of wd fs uploadDir originalName counter] by (auto split: if_splits)
qed

declare dedupe.simps [simp del]

text \<open>
  An uploaded file as multer hands it over: the path of the temporary copy and the
  name the client gave. \<open>Buffer.from(file.originalname, 'latin1').toString('utf8')\<close>
  is a function of the Node library; it is the parameter \<open>latin1_to_utf8\<close> of the
  handler, as the MIME table is one of \<open>preview\<close>.
\<close>

record upload_file =
  tmp_path :: string
  originalname :: string

definition cleanupTempFiles :: "string \<Rightarrow> upload_file list \<Rightarrow> filesystem \<Rightarrow> filesystem" where
  "cleanupTempFiles wd fls fs =
     fold (\<lambda>f d. case fs_unlink wd d (tmp_path f) of Inl e \<Rightarrow> d | Inr d' \<Rightarrow> d') fls fs"

text \<open>
  Moving the temporary file into place: \<open>renameSync\<close>, and on \<open>EXDEV\<close> or \<open>EPERM\<close>
  read, write and unlink. An error comes with the filesystem as it was when thrown.
\<close>

definition move_from_temp :: "bool \<Rightarrow> string \<Rightarrow> filesystem \<Rightarrow> string \<Rightarrow> string \<Rightarrow> fserror \<times> filesystem + filesystem" where
  "move_from_temp xdev wd fs tmp filePath =
     (case fs_rename xdev wd fs tmp filePath of
        Inr fs' \<Rightarrow> Inr fs'
      | Inl e \<Rightarrow>
          if code e = EXDEV \<or> code e = EPERM
          then (case fs_readFile wd fs tmp of
                  Inl e1 \<Rightarrow> Inl (e1, fs)
                | Inr content \<Rightarrow>
                   (case fs_writeFile wd fs filePath content of
                      Inl e2 \<Rightarrow> Inl (e2, fs)
                    | Inr fs1 \<Rightarrow>
                       (case fs_unlink wd fs1 tmp of
                          Inl e3 \<Rightarrow> Inl (e3, fs1)
                        | Inr fs2 \<Rightarrow> Inr fs2)))
          else Inl (e, fs))"

fun upload_files :: "(string \<Rightarrow> string) \<Rightarrow> config \<Rightarrow> string \<Rightarrow> upload_file list \<Rightarrow> string list \<Rightarrow> filesystem \<Rightarrow> upload_file \<times> fserror \<times> filesystem + string list \<times> filesystem" where
  "upload_files latin1_to_utf8 cfg uploadDir [] uploadedFiles fs = Inr (uploadedFiles, fs)"
| "upload_files latin1_to_utf8 cfg uploadDir (f # rest) uploadedFiles fs =
     (case dedupe (cwd cfg) fs uploadDir (latin1_to_utf8 (originalname f))
             (latin1_to_utf8 (originalname f))
             (path_join [uploadDir, latin1_to_utf8 (originalname f)]) 1 of
        (filename, filePath) \<Rightarrow>
          (case move_from_temp (cross_device cfg) (cwd cfg) fs (tmp_path f) filePath of
             Inl (e, fs') \<Rightarrow> Inl (f, e, fs')
           | Inr fs' \<Rightarrow>
               upload_files latin1_to_utf8 cfg uploadDir rest (uploadedFiles @ [filename]) fs'))"

definition upload :: "(string \<Rightarrow> string) \<Rightarrow> config \<Rightarrow> nat \<Rightarrow> string \<Rightarrow> upload_file list \<Rightarrow> server \<Rightarrow> response \<times> server" where
  "upload latin1_to_utf8 cfg now currentPath fls s =
     (let uploadDir = safeJoin (cwd cfg) (BASE_DIR cfg) currentPath
      in if \<not> isSafePath (cwd cfg) uploadDir (BASE_DIR cfg)
         then (Failure 400 ''Invalid path'', s\<lparr>disk := cleanupTempFiles (cwd cfg) fls (disk s)\<rparr>)
         else if \<not> existsSync (cwd cfg) (disk s) uploadDir
         then (Failure 400 ''Directory does not exist'',
               s\<lparr>disk := cleanupTempFiles (cwd cfg) fls (disk s)\<rparr>)
         else (case upload_files latin1_to_utf8 cfg uploadDir fls [] (disk s) of
                 Inl (f, e, d) \<Rightarrow>
                   (Failure 500 (''Failed to save '' @ originalname f @ '': '' @ message e),
                    s\<lparr>disk := cleanupTempFiles (cwd cfg) fls d\<rparr>)
               | Inr (uploadedFiles, d) \<Rightarrow>
                   (Uploaded uploadedFiles,
                    emit currentPath
                      (s\<lparr>disk := d,
                         lastOperation :=
                           Some (OpUpload (map (\<lambda>f. path_join [uploadDir, f]) uploadedFiles) now)\<rparr>))))"

subsection \<open>What an upload stores and what it leaves alone\<close>

lemma dedupe_result:
  "dedupe wd fs uploadDir originalName filename filePath counter = (filename', filePath')
   \<Longrightarrow> \<not> existsSync wd fs filePath'
       \<and> (if existsSync wd fs filePath
            then \<exists>k \<ge> counter.
                   filename' = candidate_name originalName k
                   \<and> filePath' = path_join [uploadDir, candidate_name originalName k]
                   \<and> (\<forall>j. counter \<le> j \<and> j < k
                          \<longrightarrow> existsSync wd fs (path_join [uploadDir, candidate_name originalName j]))
            else filename' = filename \<and> filePath' = filePath)"
proof (induction wd fs uploadDir originalName filename filePath counter rule: dedupe.induct)
  case (1 wd fs uploadDir originalName filename filePath counter)
  show ?case
  proof (cases "existsSync wd fs filePath")
    case False
    with "1.prems" show ?thesis by (simp add: dedupe.simps)
  next
    case True
    let ?c = "candidate_name originalName counter"
    from True "1.prems"
    have d: "dedupe wd fs uploadDir originalName ?c (path_join [uploadDir, ?c]) (counter + 1)
               = (filename', filePath')"
      by (simp add: dedupe.simps [of wd fs uploadDir originalName filename filePath counter])
    note ih = "1.IH" [OF True d]
    show ?thesis
    proof (cases "existsSync wd fs (path_join [uploadDir, ?c])")
      case False
      with ih True show ?thesis
        by (intro conjI) (auto intro!: exI [of _ counter])
    next
      case taken: True
      with ih obtain k where k: "counter + 1 \<le> k"
        "filename' = candidate_name originalName k"
        "filePath' = path_join [uploadDir, candidate_name originalName k]"
        "\<forall>j. counter + 1 \<le> j \<and> j < k
             \<longrightarrow> existsSync wd fs (path_join [uploadDir, candidate_name originalName j])"
        by auto
      have "\<forall>j. counter \<le> j \<and> j < k
             \<longrightarrow> existsSync wd fs (path_join [uploadDir, candidate_name originalName j])"
      proof (intro allI impI)
        fix j assume j: "counter \<le> j \<and> j < k"
        show "existsSync wd fs (path_join [uploadDir, candidate_name originalName j])"
        proof (cases "j = counter")
          case True with taken show ?thesis by simp
        next
          case False with j k(4) show ?thesis by simp
        qed
      qed
      with k ih True show ?thesis by (intro conjI) (auto intro!: exI [of _ k])
    qed
  qed
qed

text \<open>
  What an upload leaves alone: \<open>kept wd tmps fs fs'\<close> says that every entry of \<open>fs\<close>
  that is not one of the temporary paths \<open>tmps\<close>, or below one, is in \<open>fs'\<close> with
  the same node.
\<close>

definition kept :: "string \<Rightarrow> string list \<Rightarrow> filesystem \<Rightarrow> filesystem \<Rightarrow> bool" where
  "kept wd tmps fs fs' =
     (\<forall>q v. (\<forall>t \<in> set tmps. \<not> prefix (key_of wd t) q) \<and> map_of fs q = Some v
            \<longrightarrow> map_of fs' q = Some v)"

lemma kept_refl: "kept wd tmps fs fs"
  by (simp add: kept_def)

lemma kept_trans: "kept wd tmps a b \<Longrightarrow> kept wd tmps b c \<Longrightarrow> kept wd tmps a c"
  by (simp add: kept_def)

lemma kept_mono: "set ts \<subseteq> set tmps \<Longrightarrow> kept wd ts a b \<Longrightarrow> kept wd tmps a b"
  unfolding kept_def by (meson subsetD)

lemma map_of_remove_key_other: "q \<noteq> k \<Longrightarrow> map_of (remove_key k fs) q = map_of fs q"
  by (induction fs) (auto simp: remove_key_def)

lemma remove_file_well_formed:
  assumes wf: "well_formed fs" and k: "map_of fs k = Some (File c)"
  shows "well_formed (remove_key k fs)"
  unfolding well_formed_def list_all_iff
proof (intro ballI)
  fix e assume e: "e \<in> set (remove_key k fs)"
  obtain k' n where kn: "e = (k', n)" by (cases e)
  from e kn have in_fs: "(k', n) \<in> set fs" and "k' \<noteq> k" by (auto simp: remove_key_def)
  from wf in_fs have ne: "k' \<noteq> []" and par: "node_at fs (butlast k') = Some Dir"
    by (auto simp: well_formed_def list_all_iff)
  have "node_at (remove_key k fs) (butlast k') = Some Dir"
  proof (cases "butlast k' = []")
    case True then show ?thesis by (simp add: node_at_def)
  next
    case False
    with par k have "butlast k' \<noteq> k" by (auto simp: node_at_def)
    with par False show ?thesis by (simp add: node_at_def map_of_remove_key_other)
  qed
  with ne kn show "case e of (ka, na) \<Rightarrow> ka \<noteq> [] \<and> node_at (remove_key k fs) (butlast ka) = Some Dir"
    by simp
qed

lemma map_of_snoc_old: "map_of fs q = Some v \<Longrightarrow> map_of (fs @ [x]) q = Some v"
  by (simp add: map_add_Some_iff)

lemma map_of_snoc_new: "map_of fs k = None \<Longrightarrow> map_of (fs @ [(k, n)]) k = Some n"
  by (simp add: map_add_Some_iff)

lemma append_entry_well_formed:
  assumes wf: "well_formed fs" and ne: "kn \<noteq> []" and par: "node_at fs (butlast kn) = Some Dir"
  shows "well_formed (fs @ [(kn, n)])"
proof -
  have keep: "node_at (fs @ [(kn, n)]) q = Some Dir" if "node_at fs q = Some Dir" for q
    using that by (auto simp: node_at_def map_of_snoc_old split: if_splits)
  show ?thesis
    using wf ne par keep by (auto simp: well_formed_def list_all_iff)
qed

lemma fs_rename_fresh:
  assumes wf: "well_formed fs"
    and miss: "\<not> existsSync wd fs new"
    and ok: "fs_rename xdev wd fs old new = Inr fs'"
  shows "well_formed fs' \<and> kept wd [old] fs fs' \<and> existsSync wd fs' new"
proof -
  define ko where "ko = key_of wd old"
  define kn where "kn = key_of wd new"
  have new: "node_at fs kn = None"
    unfolding kn_def by (rule fs_rename_missing_target [OF wf miss ok])
  from fs_rename_onto_missing [OF wf new [unfolded kn_def] ok]
  obtain n where nt: "\<not> (trailing_sep new \<and> isFile n)"
    and fs': "fs' = move_tree ko kn fs"
    and w: "well_formed fs'"
    and at_new: "node_at fs' kn = Some n"
    unfolding ko_def kn_def by blast
  from new have below: "\<forall>k \<in> fst ` set fs. \<not> prefix kn k"
    using no_key_below_missing [OF wf] by auto
  have k: "kept wd [old] fs fs'"
    unfolding kept_def
  proof (intro allI impI)
    fix q v assume a: "(\<forall>t \<in> set [old]. \<not> prefix (key_of wd t) q) \<and> map_of fs q = Some v"
    then have nq: "\<not> prefix ko q" by (simp add: ko_def)
    from a have "q \<in> fst ` set fs" by (metis map_of_eq_None_iff option.distinct(1))
    with below have "\<not> prefix kn q" by blast
    then have "map_of (move_tree ko kn fs) (rekey ko kn q) = map_of fs q"
      by (intro map_of_move_tree [OF below]) simp
    with nq a show "map_of fs' q = Some v" by (simp add: fs' rekey_def)
  qed
  have "existsSync wd fs' new"
    using resolve_node_wf [OF w at_new [unfolded kn_def]] nt by (simp add: existsSync_iff)
  with w k show ?thesis by simp
qed

lemma fs_unlink_kept:
  assumes wf: "well_formed fs" and ok: "fs_unlink wd fs p = Inr fs'"
  shows "well_formed fs' \<and> kept wd [p] fs fs'"
proof -
  from ok obtain c where rn: "resolve_node wd fs p = Inr (File c)"
    and fs': "fs' = remove_key (key_of wd p) fs"
    by (auto simp: fs_unlink_def split: sum.splits node.splits)
  from resolve_node_Inr [OF rn] have c: "node_at fs (key_of wd p) = Some (File c)" by simp
  from c have mk: "map_of fs (key_of wd p) = Some (File c)"
    by (auto simp: node_at_def split: if_splits)
  have "kept wd [p] fs fs'"
    unfolding kept_def fs' by (auto simp: map_of_remove_key_other)
  with remove_file_well_formed [OF wf mk] fs' show ?thesis by simp
qed

lemma move_from_temp_kept:
  assumes wf: "well_formed fs" and fresh: "\<not> existsSync wd fs filePath"
  shows "case move_from_temp xdev wd fs tmp filePath of
           Inl (e, fs') \<Rightarrow> well_formed fs' \<and> kept wd [tmp] fs fs'
         | Inr fs' \<Rightarrow> well_formed fs' \<and> kept wd [tmp] fs fs' \<and> existsSync wd fs' filePath"
proof -
  define kn where "kn = key_of wd filePath"
  show ?thesis
  proof (cases "fs_rename xdev wd fs tmp filePath")
    case (Inr fs')
    with fs_rename_fresh [OF wf fresh Inr] show ?thesis
      by (simp add: move_from_temp_def)
  next
    case (Inl e)
    show ?thesis
    proof (cases "code e = EXDEV \<or> code e = EPERM")
      case False
      with Inl wf show ?thesis by (simp add: move_from_temp_def kept_refl)
    next
      case True
      show ?thesis
      proof (cases "fs_readFile wd fs tmp")
        case e1: (Inl e1)
        with Inl True wf show ?thesis by (simp add: move_from_temp_def kept_refl)
      next
        case (Inr content)
        then have "resolve_node wd fs tmp = Inr (File content)"
          by (auto simp: fs_readFile_def split: sum.splits node.splits)
        from resolve_node_Inr [OF this]
        have src: "node_at fs (key_of wd tmp) = Some (File content)" by simp
        show ?thesis
        proof (cases "fs_writeFile wd fs filePath content")
          case e2: (Inl e2)
          with Inl True Inr wf show ?thesis by (simp add: move_from_temp_def kept_refl)
        next
          case w: (Inr fs1)
          then have nb: "first_blocker fs (ancestors kn) = None"
            by (auto simp: fs_writeFile_def Let_def kn_def split: option.splits)
          have new: "node_at fs kn = None"
          proof (rule ccontr)
            assume "node_at fs kn \<noteq> None"
            then obtain m where m: "node_at fs kn = Some m" by auto
            with fresh resolve_node_wf [OF wf m [unfolded kn_def]]
            have "trailing_sep filePath" by (auto simp: existsSync_def split: if_splits)
            with w m nb show False
              by (auto simp: fs_writeFile_def Let_def kn_def split: node.splits)
          qed
          then have kn_ne: "kn \<noteq> []" by (auto simp: node_at_def split: if_splits)
          with new have mnew: "map_of fs kn = None" by (simp add: node_at_def)
          from w new nb have nt: "\<not> trailing_sep filePath"
            and fs1: "fs1 = fs @ [(kn, File content)]"
            by (auto simp: fs_writeFile_def Let_def kn_def split: if_splits)
          from nb parent_in_ancestors [OF kn_ne] have par: "node_at fs (butlast kn) = Some Dir"
            by (simp add: first_blocker_None_iff)
          have wf1: "well_formed fs1"
            unfolding fs1 by (rule append_entry_well_formed [OF wf kn_ne par])
          have k1: "kept wd [tmp] fs fs1"
            by (simp add: kept_def fs1 map_of_snoc_old)
          have at1: "node_at fs1 kn = Some (File content)"
            using kn_ne map_of_snoc_new [OF mnew, of "File content"] by (simp add: node_at_def fs1)
          show ?thesis
          proof (cases "fs_unlink wd fs1 tmp")
            case e3: (Inl e3)
            with Inl True Inr w wf1 k1 show ?thesis by (simp add: move_from_temp_def)
          next
            case u: (Inr fs2)
            from fs_unlink_kept [OF wf1 u] have wf2: "well_formed fs2" and k2: "kept wd [tmp] fs1 fs2"
              by simp_all
            from src new have "key_of wd tmp \<noteq> kn" by auto
            moreover from u have "fs2 = remove_key (key_of wd tmp) fs1"
              by (auto simp: fs_unlink_def split: sum.splits node.splits)
            ultimately have "node_at fs2 kn = Some (File content)"
              using at1 kn_ne by (simp add: node_at_def map_of_remove_key_other)
            from resolve_node_wf [OF wf2 this [unfolded kn_def]] nt
            have "existsSync wd fs2 filePath" by (simp add: existsSync_iff)
            with Inl True Inr w u wf2 kept_trans [OF k1 k2] show ?thesis
              by (simp add: move_from_temp_def)
          qed
        qed
      qed
    qed
  qed
qed

lemma upload_files_kept:
  "well_formed fs \<Longrightarrow>
   (case upload_files dec cfg uploadDir fls uploadedFiles fs of
      Inl (f, e, fs') \<Rightarrow> well_formed fs' \<and> kept (cwd cfg) (map tmp_path fls) fs fs'
    | Inr (names, fs') \<Rightarrow> well_formed fs' \<and> kept (cwd cfg) (map tmp_path fls) fs fs')"
proof (induction fls arbitrary: uploadedFiles fs)
  case Nil
  then show ?case by (simp add: kept_refl)
next
  case (Cons f rest)
  obtain filename filePath where d: "dedupe (cwd cfg) fs uploadDir (dec (originalname f)) (dec (originalname f))
             (path_join [uploadDir, dec (originalname f)]) 1 = (filename, filePath)"
    by (cases "dedupe (cwd cfg) fs uploadDir (dec (originalname f)) (dec (originalname f))
             (path_join [uploadDir, dec (originalname f)]) 1")
  from dedupe_result [OF d] have fresh: "\<not> existsSync (cwd cfg) fs filePath" by simp
  note m = move_from_temp_kept [OF Cons.prems fresh, where xdev = "cross_device cfg" and tmp = "tmp_path f"]
  show ?case
  proof (cases "move_from_temp (cross_device cfg) (cwd cfg) fs (tmp_path f) filePath")
    case (Inl a)
    obtain e fs1 where a: "a = (e, fs1)" by (cases a)
    with m Inl have "well_formed fs1" and "kept (cwd cfg) [tmp_path f] fs fs1" by simp_all
    then have "well_formed fs1 \<and> kept (cwd cfg) (map tmp_path (f # rest)) fs fs1"
      using kept_mono [of "[tmp_path f]" "map tmp_path (f # rest)"] by simp
    with Inl a d show ?thesis by simp
  next
    case (Inr fs1)
    with m have wf1: "well_formed fs1" and k1: "kept (cwd cfg) [tmp_path f] fs fs1" by simp_all
    have k1': "kept (cwd cfg) (map tmp_path (f # rest)) fs fs1"
      using kept_mono [OF _ k1, of "map tmp_path (f # rest)"] by simp
    have step: "upload_files dec cfg uploadDir (f # rest) uploadedFiles fs
                  = upload_files dec cfg uploadDir rest (uploadedFiles @ [filename]) fs1"
      using d Inr by simp
    note ih = Cons.IH [OF wf1, where uploadedFiles = "uploadedFiles @ [filename]"]
    show ?thesis
    proof (cases "upload_files dec cfg uploadDir rest (uploadedFiles @ [filename]) fs1")
      case l: (Inl b)
      obtain g e fs2 where b: "b = (g, e, fs2)" by (cases b)
      with ih l have "well_formed fs2" and "kept (cwd cfg) (map tmp_path rest) fs1 fs2" by simp_all
      then have "well_formed fs2 \<and> kept (cwd cfg) (map tmp_path (f # rest)) fs fs2"
        using kept_trans [OF k1', of fs2] kept_mono [of "map tmp_path rest" "map tmp_path (f # rest)"]
        by auto
      with step l b show ?thesis by simp
    next
      case r: (Inr b)
      obtain names fs2 where b: "b = (names, fs2)" by (cases b)
      with ih r have "well_formed fs2" and "kept (cwd cfg) (map tmp_path rest) fs1 fs2" by simp_all
      then have "well_formed fs2 \<and> kept (cwd cfg) (map tmp_path (f # rest)) fs fs2"
        using kept_trans [OF k1', of fs2] kept_mono [of "map tmp_path rest" "map tmp_path (f # rest)"]
        by auto
      with step r b show ?thesis by simp
    qed
  qed
qed

lemma cleanupTempFiles_kept:
  "well_formed fs \<Longrightarrow>
   well_formed (cleanupTempFiles wd fls fs) \<and> kept wd (map tmp_path fls) fs (cleanupTempFiles wd fls fs)"
proof (induction fls arbitrary: fs)
  case Nil
  then show ?case by (simp add: cleanupTempFiles_def kept_refl)
next
  case (Cons f rest)
  define fs1 where "fs1 = (case fs_unlink wd fs (tmp_path f) of Inl e \<Rightarrow> fs | Inr d' \<Rightarrow> d')"
  have c: "cleanupTempFiles wd (f # rest) fs = cleanupTempFiles wd rest fs1"
    by (simp add: cleanupTempFiles_def fs1_def)
  have "well_formed fs1 \<and> kept wd [tmp_path f] fs fs1"
    using Cons.prems fs_unlink_kept [OF Cons.prems, where wd = wd and p = "tmp_path f"]
    by (auto simp: fs1_def kept_refl split: sum.splits)
  then have wf1: "well_formed fs1" and k1: "kept wd (map tmp_path (f # rest)) fs fs1"
    using kept_mono [of "[tmp_path f]" "map tmp_path (f # rest)"] by auto
  from Cons.IH [OF wf1] have "well_formed (cleanupTempFiles wd rest fs1)"
    and "kept wd (map tmp_path (f # rest)) fs1 (cleanupTempFiles wd rest fs1)"
    using kept_mono [of "map tmp_path rest" "map tmp_path (f # rest)"] by auto
  with k1 c show ?case using kept_trans by metis
qed

lemma upload_kept:
  assumes wf: "well_formed (disk s)"
  shows "kept (cwd cfg) (map tmp_path fls) (disk s) (disk (snd (upload dec cfg now currentPath fls s)))"
proof -
  define uploadDir where "uploadDir = safeJoin (cwd cfg) (BASE_DIR cfg) currentPath"
  note c = cleanupTempFiles_kept [where wd = "cwd cfg" and fls = fls]
  note u = upload_files_kept [OF wf, where dec = dec and cfg = cfg and uploadDir = uploadDir and fls = fls
                                       and uploadedFiles = "[]"]
  show ?thesis
  proof (cases "upload_files dec cfg uploadDir fls [] (disk s)")
    case (Inl a)
    obtain f e d where a: "a = (f, e, d)" by (cases a)
    with u Inl have "well_formed d" and k: "kept (cwd cfg) (map tmp_path fls) (disk s) d" by simp_all
    with c [where fs = d] have "kept (cwd cfg) (map tmp_path fls) (disk s) (cleanupTempFiles (cwd cfg) fls d)"
      using kept_trans by blast
    with c [OF wf] Inl a show ?thesis
      by (simp add: upload_def Let_def uploadDir_def [symmetric])
  next
    case (Inr b)
    obtain names d where b: "b = (names, d)" by (cases b)
    with u Inr have "kept (cwd cfg) (map tmp_path fls) (disk s) d" by simp
    with c [OF wf] Inr b show ?thesis
      by (simp add: upload_def Let_def uploadDir_def [symmetric] emit_def)
  qed
qed

lemma upload_files_steps:
  fixes dec :: "string \<Rightarrow> string" and cfg :: config and uploadDir :: string
  defines "stored \<equiv> \<lambda>before after f filename.
       move_from_temp (cross_device cfg) (cwd cfg) before (tmp_path f)
           (path_join [uploadDir, filename]) = Inr after
     \<and> \<not> existsSync (cwd cfg) before (path_join [uploadDir, filename])
     \<and> existsSync (cwd cfg) after (path_join [uploadDir, filename])
     \<and> (if existsSync (cwd cfg) before (path_join [uploadDir, dec (originalname f)])
        then \<exists>k \<ge> 1. filename = candidate_name (dec (originalname f)) k
               \<and> (\<forall>j. 1 \<le> j \<and> j < k
                     \<longrightarrow> existsSync (cwd cfg) before
                           (path_join [uploadDir, candidate_name (dec (originalname f)) j]))
        else filename = dec (originalname f))"
  assumes wf: "well_formed fs"
    and up: "upload_files dec cfg uploadDir fls acc fs = Inr (names, fs')"
  shows "\<exists>new ds. names = acc @ new \<and> length new = length fls \<and> length ds = Suc (length fls)
           \<and> ds ! 0 = fs \<and> ds ! length fls = fs'
           \<and> (\<forall>i < length fls. stored (ds ! i) (ds ! Suc i) (fls ! i) (new ! i))"
  using wf up
proof (induction fls arbitrary: acc fs)
  case Nil
  then have "names = acc @ [] \<and> length ([] :: string list) = length ([] :: upload_file list)
           \<and> length [fs] = Suc (length ([] :: upload_file list))
           \<and> [fs] ! 0 = fs \<and> [fs] ! length ([] :: upload_file list) = fs'"
    by simp
  then show ?case by (intro exI [of _ "[]"] exI [of _ "[fs]"]) simp
next
  case (Cons f rest)
  obtain fn fp where d: "dedupe (cwd cfg) fs uploadDir (dec (originalname f)) (dec (originalname f))
             (path_join [uploadDir, dec (originalname f)]) 1 = (fn, fp)"
    by (cases "dedupe (cwd cfg) fs uploadDir (dec (originalname f)) (dec (originalname f))
             (path_join [uploadDir, dec (originalname f)]) 1")
  note r = dedupe_result [OF d]
  from r have fresh: "\<not> existsSync (cwd cfg) fs fp" by simp
  from r have fp: "fp = path_join [uploadDir, fn]" by (auto split: if_splits)
  from Cons.prems(2) d obtain fs1
    where mv: "move_from_temp (cross_device cfg) (cwd cfg) fs (tmp_path f) fp = Inr fs1"
      and rest: "upload_files dec cfg uploadDir rest (acc @ [fn]) fs1 = Inr (names, fs')"
    by (auto split: sum.splits prod.splits)
  from move_from_temp_kept [OF Cons.prems(1) fresh, where xdev = "cross_device cfg"
                              and tmp = "tmp_path f"] mv
  have wf1: "well_formed fs1" and ex1: "existsSync (cwd cfg) fs1 fp" by simp_all
  have first: "stored fs fs1 f fn"
    unfolding stored_def using mv fresh ex1 r by (auto simp: fp split: if_splits)
  from Cons.IH [OF wf1 rest] obtain new ds
    where n: "names = (acc @ [fn]) @ new" "length new = length rest"
      "length ds = Suc (length rest)" "ds ! 0 = fs1" "ds ! length rest = fs'"
      "\<forall>i < length rest. stored (ds ! i) (ds ! Suc i) (rest ! i) (new ! i)"
    by blast
  have "\<forall>i < length (f # rest).
          stored ((fs # ds) ! i) ((fs # ds) ! Suc i) ((f # rest) ! i) ((fn # new) ! i)"
  proof (intro allI impI)
    fix i assume i: "i < length (f # rest)"
    show "stored ((fs # ds) ! i) ((fs # ds) ! Suc i) ((f # rest) ! i) ((fn # new) ! i)"
    proof (cases i)
      case 0
      with first n(4) show ?thesis by simp
    next
      case (Suc j)
      with i n(6) show ?thesis by simp
    qed
  qed
  moreover have "names = acc @ fn # new" using n(1) by simp
  moreover have "length (fn # new) = length (f # rest)" using n(2) by simp
  moreover have "length (fs # ds) = Suc (length (f # rest))" using n(3) by simp
  moreover have "(fs # ds) ! 0 = fs" by simp
  moreover have "(fs # ds) ! length (f # rest) = fs'" using n(5) by simp
  ultimately show ?case by (intro exI [of _ "fn # new"] exI [of _ "fs # ds"]) blast
qed

text \<open>
  Claim C3. On a well-formed filesystem an upload, whatever its outcome, leaves every
  entry that is not one of its temporary files in place with the node it had: nothing
  is overwritten. When the upload stores its files, they are stored one after the
  other: the filesystem goes from the state before the request through one state per
  file to the state after it, each step being the move of that file's temporary copy
  to its stored name. The stored name did not exist in the destination before its
  step and exists after it; it is the desired name when that was free at that moment,
  and otherwise \<open>name_k.ext\<close> for the least \<open>k \<ge> 1\<close> whose name was free, every
  smaller \<open>k\<close> being taken. The count starts at 1 for every file of the request.
\<close>

theorem upload_takes_lowest_unused_suffix:
  assumes "well_formed (disk s)"
    and "upload latin1_to_utf8 cfg now currentPath fls s = (r, s')"
    and "uploadDir = safeJoin (cwd cfg) (BASE_DIR cfg) currentPath"
  shows "(\<forall>q v. (\<forall>f \<in> set fls. \<not> prefix (key_of (cwd cfg) (tmp_path f)) q)
               \<and> map_of (disk s) q = Some v
             \<longrightarrow> map_of (disk s') q = Some v)
       \<and> (\<forall>names. r = Uploaded names
             \<longrightarrow> (\<exists>ds. length names = length fls \<and> length ds = Suc (length fls)
                    \<and> ds ! 0 = disk s \<and> ds ! length fls = disk s'
                    \<and> (\<forall>i < length fls.
                          move_from_temp (cross_device cfg) (cwd cfg) (ds ! i) (tmp_path (fls ! i))
                              (path_join [uploadDir, names ! i]) = Inr (ds ! Suc i)
                        \<and> \<not> existsSync (cwd cfg) (ds ! i) (path_join [uploadDir, names ! i])
                        \<and> existsSync (cwd cfg) (ds ! Suc i) (path_join [uploadDir, names ! i])
                        \<and> (if existsSync (cwd cfg) (ds ! i)
                                 (path_join [uploadDir, latin1_to_utf8 (originalname (fls ! i))])
                           then \<exists>k \<ge> 1.
                                  names ! i = candidate_name (latin1_to_utf8 (originalname (fls ! i))) k
                                  \<and> (\<forall>j. 1 \<le> j \<and> j < k
                                        \<longrightarrow> existsSync (cwd cfg) (ds ! i)
                                              (path_join [uploadDir,
                                                 candidate_name (latin1_to_utf8 (originalname (fls ! i))) j]))
                           else names ! i = latin1_to_utf8 (originalname (fls ! i))))))"
proof (intro conjI allI impI)
  fix q v
  assume "(\<forall>f \<in> set fls. \<not> prefix (key_of (cwd cfg) (tmp_path f)) q) \<and> map_of (disk s) q = Some v"
  with upload_kept [OF assms(1), where dec = latin1_to_utf8 and cfg = cfg and fls = fls
                                   and now = now and currentPath = currentPath] assms(2)
  show "map_of (disk s') q = Some v" by (simp add: kept_def)
next
  fix names
  assume "r = Uploaded names"
  with assms(2) have "upload_files latin1_to_utf8 cfg uploadDir fls [] (disk s) = Inr (names, disk s')"
    by (auto simp: upload_def Let_def assms(3) [symmetric] emit_def
             split: if_splits sum.splits prod.splits)
  from upload_files_steps [OF assms(1) this]
  show "\<exists>ds. length names = length fls \<and> length ds = Suc (length fls)
            \<and> ds ! 0 = disk s \<and> ds ! length fls = disk s'
            \<and> (\<forall>i < length fls.
                  move_from_temp (cross_device cfg) (cwd cfg) (ds ! i) (tmp_path (fls ! i))
                      (path_join [uploadDir, names ! i]) = Inr (ds ! Suc i)
                \<and> \<not> existsSync (cwd cfg) (ds ! i) (path_join [uploadDir, names ! i])
                \<and> existsSync (cwd cfg) (ds ! Suc i) (path_join [uploadDir, names ! i])
                \<and> (if existsSync (cwd cfg) (ds ! i)
                         (path_join [uploadDir, latin1_to_utf8 (originalname (fls ! i))])
                   then \<exists>k \<ge> 1.
                          names ! i = candidate_name (latin1_to_utf8 (originalname (fls ! i))) k
                          \<and> (\<forall>j. 1 \<le> j \<and> j < k
                                \<longrightarrow> existsSync (cwd cfg) (ds ! i)
                                      (path_join [uploadDir,
                                         candidate_name (latin1_to_utf8 (originalname (fls ! i))) j]))
                   else names ! i = latin1_to_utf8 (originalname (fls ! i))))"
    by auto
qed

text \<open>
  For a name without a separator, \<open>name\<close> and \<open>ext\<close> are the two halves of the
  name, so the counter goes in before the extension.
\<close>

lemma last_segment_plain: "CHR ''/'' \<notin> set n \<Longrightarrow> last_segment n = n"
proof -
  assume a: "CHR ''/'' \<notin> set n"
  then have "dropWhile (\<lambda>x. x = CHR ''/'') (rev n) = rev n"
    by (cases "rev n") (auto simp: in_set_conv_decomp)
  moreover from a have "takeWhile (\<lambda>x. x \<noteq> CHR ''/'') (rev n) = rev n"
    by (intro takeWhile_eq_all_conv [THEN iffD2]) auto
  ultimately show ?thesis by (simp only: last_segment_def rev_rev_ident)
qed

lemma basename_extname_split:
  assumes "CHR ''/'' \<notin> set n"
  shows "path_basename n (path_extname n) @ path_extname n = n"
proof -
  define e where "e = rev (takeWhile (\<lambda>x. x \<noteq> CHR ''.'') (rev n))"
  have s: "last_segment n = n" by (rule last_segment_plain [OF assms])
  show ?thesis
  proof (cases "path_extname n = []")
    case True
    then show ?thesis by (simp add: path_basename_def s)
  next
    case False
    then have dot: "CHR ''.'' \<in> set n" and len: "length e + 1 \<noteq> length n"
      and ext: "path_extname n = CHR ''.'' # e"
      by (auto simp: path_extname_def Let_def s e_def split: if_splits)
    from dot have "dropWhile (\<lambda>x. x \<noteq> CHR ''.'') (rev n) \<noteq> []" by simp
    then obtain r where r: "dropWhile (\<lambda>x. x \<noteq> CHR ''.'') (rev n) = CHR ''.'' # r"
      using hd_dropWhile [of "\<lambda>x. x \<noteq> CHR ''.''" "rev n"]
      by (cases "dropWhile (\<lambda>x. x \<noteq> CHR ''.'') (rev n)") auto
    have "rev n = takeWhile (\<lambda>x. x \<noteq> CHR ''.'') (rev n) @ dropWhile (\<lambda>x. x \<noteq> CHR ''.'') (rev n)"
      by simp
    then have "rev n = rev e @ CHR ''.'' # r" by (simp only: r e_def rev_rev_ident)
    then have "rev (rev n) = rev (rev e @ CHR ''.'' # r)" by (rule arg_cong)
    then have n: "n = rev r @ CHR ''.'' # e" by simp
    then have suf: "suffix (CHR ''.'' # e) n" by (metis suffixI)
    from len n have neq: "CHR ''.'' # e \<noteq> n" by auto
    from suf neq have b: "path_basename n (CHR ''.'' # e) = take (length n - length (CHR ''.'' # e)) n"
      by (simp add: path_basename_def s)
    from suf have "take (length n - length (CHR ''.'' # e)) n @ CHR ''.'' # e = n"
      by (auto simp: suffix_def)
    with b ext show ?thesis by simp
  qed
qed

text \<open>
  The example of the claim: \<open>x.txt\<close> is there, two uploads of \<open>x.txt\<close> follow, in
  two requests or in one. The names are plain ASCII, which the decoding leaves as
  they are.
\<close>

definition upload_example :: server where
  "upload_example =
     \<lparr>disk = [([''srv''], Dir),
              ([''srv'', ''uploads''], Dir),
              ([''srv'', ''uploads'', ''x.txt''], File ''first''),
              ([''home''], Dir),
              ([''home'', ''temp_uploads''], Dir),
              ([''home'', ''temp_uploads'', ''1-x.txt''], File ''second''),
              ([''home'', ''temp_uploads'', ''2-x.txt''], File ''third'')],
      lastOperation = None, emitted = []\<rparr>"

definition upload_example_next :: server where
  "upload_example_next =
     \<lparr>disk = [([''srv''], Dir),
              ([''srv'', ''uploads''], Dir),
              ([''srv'', ''uploads'', ''x.txt''], File ''first''),
              ([''home''], Dir),
              ([''home'', ''temp_uploads''], Dir),
              ([''srv'', ''uploads'', ''x_1.txt''], File ''second''),
              ([''home'', ''temp_uploads'', ''2-x.txt''], File ''third'')],
      lastOperation = Some (OpUpload [''/srv/uploads/x_1.txt''] 1), emitted = [[]]\<rparr>"

definition upload_example_both :: server where
  "upload_example_both =
     \<lparr>disk = [([''srv''], Dir),
              ([''srv'', ''uploads''], Dir),
              ([''srv'', ''uploads'', ''x.txt''], File ''first''),
              ([''home''], Dir),
              ([''home'', ''temp_uploads''], Dir),
              ([''srv'', ''uploads'', ''x_1.txt''], File ''second''),
              ([''srv'', ''uploads'', ''x_2.txt''], File ''third'')],
      lastOperation = Some (OpUpload [''/srv/uploads/x_1.txt'', ''/srv/uploads/x_2.txt''] 1),
      emitted = [[]]\<rparr>"

theorem upload_takes_lowest_unused_suffix_witness:
  "upload (\<lambda>n. n) example_cfg 1 []
          [\<lparr>tmp_path = ''temp_uploads/1-x.txt'', originalname = ''x.txt''\<rparr>,
           \<lparr>tmp_path = ''temp_uploads/2-x.txt'', originalname = ''x.txt''\<rparr>]
          upload_example = (Uploaded [''x_1.txt'', ''x_2.txt''], upload_example_both)
   \<and> upload (\<lambda>n. n) example_cfg 1 [] [\<lparr>tmp_path = ''temp_uploads/1-x.txt'', originalname = ''x.txt''\<rparr>]
          upload_example = (Uploaded [''x_1.txt''], upload_example_next)
   \<and> fst (upload (\<lambda>n. n) example_cfg 2 []
            [\<lparr>tmp_path = ''temp_uploads/2-x.txt'', originalname = ''x.txt''\<rparr>]
            upload_example_next) = Uploaded [''x_2.txt'']
   \<and> map_of (disk upload_example_both) [''srv'', ''uploads'', ''x.txt''] = Some (File ''first'')
   \<and> \<not> existsSync ''/home'' (disk upload_example) ''/srv/uploads/x_1.txt''
   \<and> existsSync ''/home'' (disk upload_example_both) ''/srv/uploads/x_2.txt''"
proof -
  let ?f1 = "\<lparr>tmp_path = ''temp_uploads/1-x.txt'', originalname = ''x.txt''\<rparr>"
  let ?f2 = "\<lparr>tmp_path = ''temp_uploads/2-x.txt'', originalname = ''x.txt''\<rparr>"
  have wf: "well_formed (disk upload_example)" by code_simp
  have up: "upload (\<lambda>n. n) example_cfg 1 [] [?f1, ?f2] upload_example
              = (Uploaded [''x_1.txt'', ''x_2.txt''], upload_example_both)"
    by code_simp
  have r1: "upload (\<lambda>n. n) example_cfg 1 [] [?f1] upload_example
              = (Uploaded [''x_1.txt''], upload_example_next)"
    by code_simp
  have r2: "fst (upload (\<lambda>n. n) example_cfg 2 [] [?f2] upload_example_next) = Uploaded [''x_2.txt'']"
    by code_simp
  have old: "map_of (disk upload_example) [''srv'', ''uploads'', ''x.txt''] = Some (File ''first'')"
    by code_simp
  have nt: "\<forall>f \<in> set [?f1, ?f2].
              \<not> prefix (key_of (cwd example_cfg) (tmp_path f)) [''srv'', ''uploads'', ''x.txt'']"
    by code_simp
  have dir: "''/srv/uploads'' = safeJoin (cwd example_cfg) (BASE_DIR example_cfg) []"
    by code_simp
  have j1: "path_join [''/srv/uploads'', ''x_1.txt''] = ''/srv/uploads/x_1.txt''" by code_simp
  have j2: "path_join [''/srv/uploads'', ''x_2.txt''] = ''/srv/uploads/x_2.txt''" by code_simp
  have c: "cwd example_cfg = ''/home''" by (simp add: example_cfg_def)
  note t = upload_takes_lowest_unused_suffix [OF wf up dir]
  have k: "map_of (disk upload_example_both) [''srv'', ''uploads'', ''x.txt''] = Some (File ''first'')"
    by (rule t [THEN conjunct1, THEN spec, THEN spec, THEN mp]) (rule conjI [OF nt old])
  from t [THEN conjunct2, THEN spec, THEN mp, OF refl]
  obtain ds where ds: "ds ! 0 = disk upload_example"
      "ds ! length [?f1, ?f2] = disk upload_example_both"
      "\<forall>i < length [?f1, ?f2].
         \<not> existsSync (cwd example_cfg) (ds ! i) (path_join [''/srv/uploads'', [''x_1.txt'', ''x_2.txt''] ! i])
         \<and> existsSync (cwd example_cfg) (ds ! Suc i) (path_join [''/srv/uploads'', [''x_1.txt'', ''x_2.txt''] ! i])"
    by blast
  from ds(3) [THEN spec, of 0] ds(1)
  have e1: "\<not> existsSync ''/home'' (disk upload_example) ''/srv/uploads/x_1.txt''"
    by (simp add: j1 c)
  from ds(3) [THEN spec, of 1] ds(2)
  have e2: "existsSync ''/home'' (disk upload_example_both) ''/srv/uploads/x_2.txt''"
    by (simp add: j2 c)
  show ?thesis
    by (intro conjI) (rule up, rule r1, rule r2, rule k, rule e1, rule e2)
qed

section \<open>The polling sweep\<close>

text \<open>
  \<open>pollForChanges\<close> sees the tree through \<open>readdirSync\<close> and \<open>statSync\<close>. Its view
  is a tree of directories, each with its \<open>mtimeMs\<close>, whether it can be read (a
  directory that cannot makes \<open>readdirSync\<close> throw) and its entries by name. A
  directory is identified by the names leading to it from \<open>BASE_DIR\<close>:
  \<open>path.join(dir, entry.name)\<close> adds a name, \<open>path.relative(BASE_DIR, dir)\<close> joins
  the names with \<open>/\<close>. \<open>lastMtimes\<close> and \<open>newMtimes\<close> are maps on these keys.
\<close>

datatype tree = FileT | DirT nat bool "(string \<times> tree) list"

fun tree_size :: "tree \<Rightarrow> nat" where
  "tree_size FileT = 1"
| "tree_size (DirT mtime readable entries) = Suc (sum_list (map (\<lambda>e. tree_size (snd e)) entries))"

fun isDir :: "tree \<Rightarrow> bool" where
  "isDir FileT = False"
| "isDir (DirT mtime readable entries) = True"

definition subdirs :: "key \<Rightarrow> (string \<times> tree) list \<Rightarrow> (key \<times> tree) list" where
  "subdirs dir entries = map (\<lambda>(name, t). (dir @ [name], t)) (filter (\<lambda>(name, t). isDir t) entries)"

definition stack_size :: "(key \<times> tree) list \<Rightarrow> nat" where
  "stack_size dirs = sum_list (map (\<lambda>e. tree_size (snd e)) dirs)"

lemma stack_size_subdirs: "stack_size (rev (subdirs dir entries)) \<le> sum_list (map (\<lambda>e. tree_size (snd e)) entries)"
  by (induction entries) (auto simp: stack_size_def subdirs_def)

lemma stack_size_append: "stack_size (a @ b) = stack_size a + stack_size b"
  by (simp add: stack_size_def)

lemma stack_size_pop:
  "stack_size (rev (subdirs dir entries) @ dirs) < stack_size ((dir, DirT mtime readable entries) # dirs)"
  using stack_size_subdirs [of dir entries]
  by (simp add: stack_size_append) (simp add: stack_size_def)

text \<open>
  The loop \<open>while (dirs.length)\<close>: the head of the list is the element \<open>pop\<close> takes,
  the entries are pushed in order, so the last one is on top. An exception leaves the
  loop with the events sent so far; \<open>lastMtimes = newMtimes\<close> is then skipped.
\<close>

definition relative_payload :: "key \<Rightarrow> string" where
  "relative_payload dir = (let rel = join_slash dir in if rel = ''.'' then [] else rel)"

function walk :: "(key \<rightharpoonup> nat) \<Rightarrow> (key \<times> tree) list \<Rightarrow> (key \<rightharpoonup> nat) \<Rightarrow> string list
                    \<Rightarrow> (key \<rightharpoonup> nat) option \<times> string list" where
  "walk lastMtimes [] newMtimes events = (Some newMtimes, events)"
| "walk lastMtimes ((dir, FileT) # dirs) newMtimes events = (None, events)"
| "walk lastMtimes ((dir, DirT mtime readable entries) # dirs) newMtimes events =
     (if \<not> readable then (None, events)
      else walk lastMtimes (rev (subdirs dir entries) @ dirs)
             (newMtimes(dir \<mapsto> mtime))
             (if lastMtimes dir \<noteq> None \<and> lastMtimes dir \<noteq> Some mtime
              then events @ [relative_payload dir] else events))"
  by pat_completeness auto
termination
  by (relation "measure (\<lambda>(lastMtimes, dirs, newMtimes, events). stack_size dirs)")
     (auto simp: stack_size_pop)

definition pollForChanges :: "tree \<Rightarrow> (key \<rightharpoonup> nat) \<Rightarrow> (key \<rightharpoonup> nat) \<times> string list" where
  "pollForChanges root lastMtimes =
     (case walk lastMtimes [([], root)] Map.empty [] of
        (Some newMtimes, events) \<Rightarrow> (newMtimes, events)
      | (None, events) \<Rightarrow> (lastMtimes, events))"

text \<open>The directories a sweep visits, in order, and whether it reaches the end.\<close>

function visits :: "(key \<times> tree) list \<Rightarrow> (key \<times> nat) list \<times> bool" where
  "visits [] = ([], True)"
| "visits ((dir, FileT) # dirs) = ([], False)"
| "visits ((dir, DirT mtime readable entries) # dirs) =
     (if \<not> readable then ([], False)
      else (case visits (rev (subdirs dir entries) @ dirs) of
              (vs, finished) \<Rightarrow> ((dir, mtime) # vs, finished)))"
  by pat_completeness auto
termination
  by (relation "measure stack_size") (auto simp: stack_size_pop)

definition changed :: "(key \<rightharpoonup> nat) \<Rightarrow> (key \<times> nat) list \<Rightarrow> string list" where
  "changed lastMtimes vs =
     map (\<lambda>(dir, mtime). relative_payload dir)
       (filter (\<lambda>(dir, mtime). lastMtimes dir \<noteq> None \<and> lastMtimes dir \<noteq> Some mtime) vs)"

definition record_all :: "(key \<times> nat) list \<Rightarrow> (key \<rightharpoonup> nat) \<Rightarrow> (key \<rightharpoonup> nat)" where
  "record_all vs m = fold (\<lambda>(dir, mtime) m. m(dir \<mapsto> mtime)) vs m"

lemma record_all_Nil: "record_all [] m = m"
  by (simp add: record_all_def)

lemma record_all_Cons: "record_all ((dir, mtime) # vs) m = record_all vs (m(dir \<mapsto> mtime))"
  by (simp add: record_all_def)

lemma changed_Nil: "changed lastMtimes [] = []"
  by (simp add: changed_def)

lemma changed_Cons:
  "changed lastMtimes ((dir, mtime) # vs)
     = (if lastMtimes dir \<noteq> None \<and> lastMtimes dir \<noteq> Some mtime
        then relative_payload dir # changed lastMtimes vs else changed lastMtimes vs)"
  by (simp add: changed_def)

lemma walk_visits:
  "walk lastMtimes dirs newMtimes events
     = (if snd (visits dirs) then Some (record_all (fst (visits dirs)) newMtimes) else None,
        events @ changed lastMtimes (fst (visits dirs)))"
proof (induction lastMtimes dirs newMtimes events rule: walk.induct)
  case (1 lastMtimes newMtimes events)
  show ?case by (simp add: changed_Nil record_all_Nil)
next
  case (2 lastMtimes dir dirs newMtimes events)
  show ?case by (simp add: changed_Nil)
next
  case (3 lastMtimes dir mtime readable entries dirs newMtimes events)
  show ?case
  proof (cases readable)
    case False
    then show ?thesis by (simp add: changed_Nil)
  next
    case True
    obtain vs finished where v: "visits (rev (subdirs dir entries) @ dirs) = (vs, finished)"
      by (cases "visits (rev (subdirs dir entries) @ dirs)")
    with True have top: "visits ((dir, DirT mtime readable entries) # dirs) = ((dir, mtime) # vs, finished)"
      by simp
    define ev' where "ev' = (if lastMtimes dir \<noteq> None \<and> lastMtimes dir \<noteq> Some mtime
             then events @ [relative_payload dir] else events)"
    have nn: "\<not> \<not> readable" using True by simp
    have ih: "walk lastMtimes (rev (subdirs dir entries) @ dirs) (newMtimes(dir \<mapsto> mtime)) ev'
          = (if finished then Some (record_all vs (newMtimes(dir \<mapsto> mtime))) else None,
             ev' @ changed lastMtimes vs)"
      using "3.IH" [OF nn] unfolding v fst_conv snd_conv ev'_def .
    have step: "walk lastMtimes ((dir, DirT mtime readable entries) # dirs) newMtimes events
          = walk lastMtimes (rev (subdirs dir entries) @ dirs) (newMtimes(dir \<mapsto> mtime)) ev'"
      using True unfolding ev'_def by (simp only: walk.simps if_False not_True_eq_False)
    have ev: "ev' @ changed lastMtimes vs = events @ changed lastMtimes ((dir, mtime) # vs)"
      unfolding ev'_def changed_Cons by simp
    show ?thesis
      unfolding step ih top fst_conv snd_conv record_all_Cons ev ..
  qed
qed

text \<open>
  In a real directory no two entries share a name. The stack of a sweep holds keys
  none of which is a prefix of another.
\<close>

fun wf_tree :: "tree \<Rightarrow> bool" where
  "wf_tree FileT = True"
| "wf_tree (DirT mtime readable entries) =
     (distinct (map fst entries) \<and> list_all (\<lambda>e. wf_tree (snd e)) entries)"

definition apart :: "key list \<Rightarrow> bool" where
  "apart ks = (distinct ks \<and> (\<forall>a \<in> set ks. \<forall>b \<in> set ks. prefix a b \<longrightarrow> a = b))"

lemma subdirs_keys: "k \<in> fst ` set (subdirs dir entries) \<Longrightarrow> \<exists>n. k = dir @ [n]"
  by (auto simp: subdirs_def)

lemma subdirs_distinct: "distinct (map fst entries) \<Longrightarrow> distinct (map fst (subdirs dir entries))"
proof (induction entries)
  case Nil
  then show ?case by (simp add: subdirs_def)
next
  case (Cons e es)
  obtain n t where e: "e = (n, t)" by (cases e)
  from Cons.prems e have n: "n \<notin> fst ` set es" and d: "distinct (map fst es)" by simp_all
  have "dir @ [n] \<notin> fst ` set (subdirs dir es)"
  proof
    assume "dir @ [n] \<in> fst ` set (subdirs dir es)"
    then obtain m u where "(m, u) \<in> set es" "dir @ [n] = dir @ [m]"
      by (auto simp: subdirs_def)
    with n show False by force
  qed
  moreover have "subdirs dir (e # es) = (if isDir t then (dir @ [n], t) # subdirs dir es else subdirs dir es)"
    by (simp add: subdirs_def e)
  ultimately show ?case using Cons.IH [OF d] by simp
qed

lemma subdirs_wf:
  "list_all (\<lambda>e. wf_tree (snd e)) entries \<Longrightarrow> (k, t) \<in> set (subdirs dir entries) \<Longrightarrow> wf_tree t"
  by (auto simp: subdirs_def list_all_iff)

lemma apart_push:
  assumes ap: "apart (dir # ks)" and d: "distinct (map fst entries)"
  shows "apart (map fst (rev (subdirs dir entries)) @ ks)"
proof -
  let ?cs = "map fst (subdirs dir entries)"
  from ap have dk: "distinct ks" and nd: "dir \<notin> set ks"
    and pf: "\<And>a b. a \<in> set (dir # ks) \<Longrightarrow> b \<in> set (dir # ks) \<Longrightarrow> prefix a b \<Longrightarrow> a = b"
    by (auto simp: apart_def)
  have child: "\<exists>n. c = dir @ [n]" if "c \<in> set ?cs" for c
    using that subdirs_keys [of c dir entries] by auto
  have c_not_rest: "c \<notin> set ks" if "c \<in> set ?cs" for c
  proof
    assume "c \<in> set ks"
    moreover from child [OF that] have "prefix dir c" by auto
    ultimately have "dir = c" using pf [of dir c] by simp
    with \<open>c \<in> set ks\<close> nd show False by simp
  qed
  have dist: "distinct (map fst (rev (subdirs dir entries)) @ ks)"
    using subdirs_distinct [OF d, of dir] dk c_not_rest by (auto simp: rev_map [symmetric])
  have pre: "a = b" if a: "a \<in> set ?cs \<union> set ks" and b: "b \<in> set ?cs \<union> set ks" and p: "prefix a b" for a b
  proof -
    consider "a \<in> set ?cs" "b \<in> set ?cs" | "a \<in> set ?cs" "b \<in> set ks"
      | "a \<in> set ks" "b \<in> set ?cs" | "a \<in> set ks" "b \<in> set ks"
      using a b by auto
    then show ?thesis
    proof cases
      case 1
      then obtain n m where "a = dir @ [n]" "b = dir @ [m]" using child by blast
      with p show ?thesis by simp
    next
      case 2
      then obtain n where "a = dir @ [n]" using child by blast
      with p have "prefix dir b" by (metis prefix_order.trans prefixI)
      with 2 have "dir = b" using pf [of dir b] by simp
      with 2 nd show ?thesis by simp
    next
      case 3
      then obtain m where m: "b = dir @ [m]" using child by blast
      with p have "a = b \<or> prefix a dir" by (auto simp: prefix_snoc)
      then show ?thesis
      proof
        assume "a = b" then show ?thesis .
      next
        assume "prefix a dir"
        with 3 have "a = dir" using pf [of a dir] by simp
        with 3 nd show ?thesis by simp
      qed
    next
      case 4
      with p show ?thesis using pf [of a b] by simp
    qed
  qed
  show ?thesis
    unfolding apart_def using dist pre by (auto simp: rev_map [symmetric])
qed

lemma visits_keys:
  "apart (map fst dirs) \<Longrightarrow> (\<forall>e \<in> set dirs. wf_tree (snd e))
   \<Longrightarrow> distinct (map fst (fst (visits dirs)))
       \<and> (\<forall>k \<in> fst ` set (fst (visits dirs)). \<exists>a \<in> fst ` set dirs. prefix a k)"
proof (induction dirs rule: visits.induct)
  case 1
  show ?case by simp
next
  case (2 dir dirs)
  show ?case by simp
next
  case (3 dir mtime readable entries dirs)
  show ?case
  proof (cases readable)
    case False
    then show ?thesis by simp
  next
    case True
    let ?next = "rev (subdirs dir entries) @ dirs"
    obtain vs finished where v: "visits ?next = (vs, finished)" by (cases "visits ?next")
    with True have top: "visits ((dir, DirT mtime readable entries) # dirs) = ((dir, mtime) # vs, finished)"
      by simp
    from "3.prems"(2) have wfd: "distinct (map fst entries)"
      and wfe: "list_all (\<lambda>e. wf_tree (snd e)) entries"
      and wfr: "\<forall>e \<in> set dirs. wf_tree (snd e)" by simp_all
    from "3.prems"(1) have ap: "apart (dir # map fst dirs)" by simp
    have ap': "apart (map fst ?next)"
      using apart_push [OF ap wfd] by simp
    have wf': "\<forall>e \<in> set ?next. wf_tree (snd e)"
      using wfr subdirs_wf [OF wfe] by auto
    have nn: "\<not> \<not> readable" using True by simp
    from "3.IH" [OF nn ap' wf'] v
    have dvs: "distinct (map fst vs)"
      and pvs: "\<forall>k \<in> fst ` set vs. \<exists>a \<in> fst ` set ?next. prefix a k" by simp_all
    from ap have nd: "dir \<notin> set (map fst dirs)"
      and pf: "\<And>b. b \<in> set (map fst dirs) \<Longrightarrow> prefix b dir \<Longrightarrow> b = dir"
      by (auto simp: apart_def)
    have fresh: "dir \<notin> fst ` set vs"
    proof
      assume "dir \<in> fst ` set vs"
      with pvs obtain a where a: "a \<in> fst ` set ?next" "prefix a dir" by blast
      from a(1) consider "a \<in> fst ` set (subdirs dir entries)" | "a \<in> fst ` set dirs" by auto
      then show False
      proof cases
        case 1
        then obtain n where "a = dir @ [n]" using subdirs_keys by blast
        with a(2) show False by (simp add: prefix_def)
      next
        case 2
        with pf [of a] a(2) nd show False by auto
      qed
    qed
    have up: "\<exists>a \<in> fst ` set ((dir, DirT mtime readable entries) # dirs). prefix a k"
      if "k \<in> fst ` set vs" for k
    proof -
      from pvs that obtain a where a: "a \<in> fst ` set ?next" "prefix a k" by blast
      from a(1) consider "a \<in> fst ` set (subdirs dir entries)" | "a \<in> fst ` set dirs" by auto
      then show ?thesis
      proof cases
        case 1
        then obtain n where "a = dir @ [n]" using subdirs_keys by blast
        with a(2) have "prefix dir k" by (metis prefix_order.trans prefixI)
        then show ?thesis by simp
      next
        case 2
        with a(2) show ?thesis by auto
      qed
    qed
    show ?thesis
      unfolding top using dvs fresh up by auto
  qed
qed

lemma record_all_other: "k \<notin> fst ` set vs \<Longrightarrow> record_all vs m k = m k"
proof (induction vs arbitrary: m)
  case Nil
  show ?case by (simp add: record_all_Nil)
next
  case (Cons v vs)
  obtain d t where v: "v = (d, t)" by (cases v)
  with Cons show ?case by (simp add: record_all_Cons)
qed

lemma record_all_lookup:
  "distinct (map fst vs) \<Longrightarrow> (k, t) \<in> set vs \<Longrightarrow> record_all vs m k = Some t"
proof (induction vs arbitrary: m)
  case Nil
  then show ?case by simp
next
  case (Cons v vs)
  obtain d u where v: "v = (d, u)" by (cases v)
  show ?case
  proof (cases "(k, t) = (d, u)")
    case True
    with Cons.prems v have "k \<notin> fst ` set vs" by auto
    from record_all_other [OF this] True v show ?thesis by (simp add: record_all_Cons)
  next
    case False
    with Cons.prems v have "(k, t) \<in> set vs" "distinct (map fst vs)" by auto
    from Cons.IH [OF this(2) this(1)] v show ?thesis by (simp add: record_all_Cons)
  qed
qed

lemma changed_empty_baseline: "changed Map.empty vs = []"
  by (simp add: changed_def)

lemma changed_same:
  "(\<forall>(k, t) \<in> set vs. lastMtimes k = Some t) \<Longrightarrow> changed lastMtimes vs = []"
  by (induction vs) (auto simp: changed_Nil changed_Cons)

lemma pollForChanges_visits:
  "pollForChanges root lastMtimes
     = (if snd (visits [([], root)]) then record_all (fst (visits [([], root)])) Map.empty
        else lastMtimes,
        changed lastMtimes (fst (visits [([], root)])))"
  by (simp add: pollForChanges_def walk_visits)

text \<open>
  Claim C7, amended. The first sweep, from the empty baseline, sends no event, and
  neither does the sweep after it. From any baseline, a sweep that ran to its end is
  followed by a silent sweep of the unchanged tree.
\<close>

theorem sweep_silent_after_completed_sweep:
  assumes "wf_tree root"
  shows "snd (pollForChanges root Map.empty) = []
       \<and> snd (pollForChanges root (fst (pollForChanges root Map.empty))) = []
       \<and> (fst (walk lastMtimes [([], root)] Map.empty []) \<noteq> None
            \<longrightarrow> snd (pollForChanges root (fst (pollForChanges root lastMtimes))) = [])"
proof -
  let ?vs = "fst (visits [([], root)])"
  have "apart (map fst [([], root)])" by (simp add: apart_def)
  with visits_keys [of "[([], root)]"] assms have d: "distinct (map fst ?vs)" by simp
  have same: "changed (record_all ?vs Map.empty) ?vs = []"
    by (rule changed_same) (auto simp: record_all_lookup [OF d])
  have first: "snd (pollForChanges root Map.empty) = []"
    by (simp add: pollForChanges_visits changed_empty_baseline)
  have second: "snd (pollForChanges root (fst (pollForChanges root Map.empty))) = []"
    by (simp add: pollForChanges_visits changed_empty_baseline same)
  have third: "snd (pollForChanges root (fst (pollForChanges root lastMtimes))) = []"
    if "fst (walk lastMtimes [([], root)] Map.empty []) \<noteq> None"
  proof -
    from that have "snd (visits [([], root)])" by (simp add: walk_visits split: if_splits)
    then show ?thesis by (simp add: pollForChanges_visits same)
  qed
  from first second third show ?thesis by blast
qed

definition example_tree :: tree where
  "example_tree =
     DirT 2 True [(''a'', DirT 5 True [(''f'', FileT), (''g'', DirT 7 True [])]),
                  (''b'', DirT 6 True []),
                  (''c'', FileT)]"

definition locked_tree :: tree where
  "locked_tree = DirT 2 True [(''a'', DirT 5 True []), (''b'', DirT 6 False [])]"

theorem sweep_silent_after_completed_sweep_witness:
  "wf_tree example_tree
   \<and> snd (pollForChanges example_tree [[] \<mapsto> 1, [''a''] \<mapsto> 5]) = [[]]
   \<and> snd (pollForChanges example_tree (fst (pollForChanges example_tree [[] \<mapsto> 1, [''a''] \<mapsto> 5]))) = []"
proof -
  have wf: "wf_tree example_tree" by code_simp
  have completes: "fst (walk [[] \<mapsto> 1, [''a''] \<mapsto> 5] [([], example_tree)] Map.empty []) \<noteq> None"
    by code_simp
  have ev: "snd (pollForChanges example_tree [[] \<mapsto> 1, [''a''] \<mapsto> 5]) = [[]]"
    by code_simp
  from sweep_silent_after_completed_sweep [OF wf, of "[[] \<mapsto> 1, [''a''] \<mapsto> 5]"] completes
  have "snd (pollForChanges example_tree (fst (pollForChanges example_tree [[] \<mapsto> 1, [''a''] \<mapsto> 5]))) = []"
    by blast
  with wf ev show ?thesis by blast
qed

text \<open>
  Counterexample to claim C7 as stated: \<open>b\<close> cannot be read and the baseline holds
  an older time for the root. The sweep sends the event for the root and then throws
  at \<open>b\<close>, so the baseline stays as it was, and the next sweep of the unchanged tree
  sends the same event again.
\<close>

theorem sweep_repeats_after_scan_error_counterexample:
  "wf_tree locked_tree
   \<and> snd (pollForChanges locked_tree [[] \<mapsto> 1]) = [[]]
   \<and> snd (pollForChanges locked_tree (fst (pollForChanges locked_tree [[] \<mapsto> 1]))) = [[]]"
  by code_simp

section \<open>Debounced and direct broadcasts\<close>

















end
